theory Spec2Isabelle
  imports Main "HOL-Library.Word"
begin

unbundle bit_operations_syntax

section \<open>Byte arrays\<close>

text \<open>
  A \<^verbatim>\<open>Uint8Array\<close> is a list of 8-bit words. Reading an index outside the array
  yields \<^verbatim>\<open>undefined\<close> in the source; the model makes that \<open>None\<close>.
\<close>

type_synonym byte = "8 word"

definition at :: "'a list \<Rightarrow> nat \<Rightarrow> 'a option" where
  "at xs i = (if i < length xs then Some (xs ! i) else None)"

text \<open>
  The relational operators of the source on two array reads: a comparison with
  \<^verbatim>\<open>undefined\<close> is false in either direction.
\<close>

definition js_gt :: "byte option \<Rightarrow> byte option \<Rightarrow> bool" where
  "js_gt x y = (case x of None \<Rightarrow> False | Some u \<Rightarrow> (case y of None \<Rightarrow> False | Some v \<Rightarrow> v < u))"

definition js_lt :: "byte option \<Rightarrow> byte option \<Rightarrow> bool" where
  "js_lt x y = (case x of None \<Rightarrow> False | Some u \<Rightarrow> (case y of None \<Rightarrow> False | Some v \<Rightarrow> u < v))"

section \<open>crypto.ts: fingerprint comparison\<close>

text \<open>
  \<^verbatim>\<open>compareFingerprints\<close>: the loop over the indices 0..31, returning at the first
  index where the bytes differ.
\<close>

function compare_loop :: "byte list \<Rightarrow> byte list \<Rightarrow> nat \<Rightarrow> int" where
  "compare_loop a b i =
     (if i < 32 then
        (if js_gt (at a i) (at b i) then 1
         else if js_lt (at a i) (at b i) then - 1
         else compare_loop a b (i + 1))
      else 0)"
  by pat_completeness auto
termination
  by (relation "measure (\<lambda>(a, b, i). 32 - i)") auto

declare compare_loop.simps [simp del]

definition compareFingerprints :: "byte list \<Rightarrow> byte list \<Rightarrow> int" where
  "compareFingerprints a b = compare_loop a b 0"

text \<open>The order induced on fingerprints: \<open>a\<close> sorts before \<open>b\<close>.\<close>

definition fp_less :: "byte list \<Rightarrow> byte list \<Rightarrow> bool" where
  "fp_less a b = (compareFingerprints a b = - 1)"

section \<open>Strings\<close>

text \<open>
  The source's strings are modelled as lists of code units below 256. The functions
  below are the string methods the codec uses, each with the result the method has on
  such strings.
\<close>

definition startsWith :: "string \<Rightarrow> string \<Rightarrow> bool" where
  "startsWith s t = (take (length t) s = t)"

definition endsWith :: "string \<Rightarrow> string \<Rightarrow> bool" where
  "endsWith s t = (length t \<le> length s \<and> drop (length s - length t) s = t)"

definition str_includes :: "string \<Rightarrow> char \<Rightarrow> bool" where
  "str_includes s c = (c \<in> set s)"

text \<open>\<^verbatim>\<open>s.split(sep)\<close> for a non-empty separator: leftmost, non-overlapping.\<close>

function split :: "string \<Rightarrow> string \<Rightarrow> string list" where
  "split [] sep = [[]]"
| "split (x # xs) sep =
     (if sep \<noteq> [] \<and> take (length sep) (x # xs) = sep
      then [] # split (drop (length sep) (x # xs)) sep
      else (case split xs sep of [] \<Rightarrow> [[x]] | r # rs \<Rightarrow> (x # r) # rs))"
  by pat_completeness auto
termination
  by (relation "measure (\<lambda>(s, sep). length s)") (auto simp: neq_Nil_conv)

fun join :: "string \<Rightarrow> string list \<Rightarrow> string" where
  "join sep [] = []"
| "join sep [p] = p"
| "join sep (p # q # ps) = p @ sep @ join sep (q # ps)"

text \<open>\<^verbatim>\<open>s.replace(pat, rep)\<close> with a string pattern: the first occurrence only.\<close>

fun replace_first :: "string \<Rightarrow> string \<Rightarrow> string \<Rightarrow> string" where
  "replace_first [] pat rep = (if pat = [] then rep else [])"
| "replace_first (x # xs) pat rep =
     (if take (length pat) (x # xs) = pat then rep @ drop (length pat) (x # xs)
      else x # replace_first xs pat rep)"

text \<open>\<^verbatim>\<open>s.replace(/-/g, '')\<close>.\<close>

definition remove_dashes :: "string \<Rightarrow> string" where
  "remove_dashes s = filter (\<lambda>c. c \<noteq> CHR ''-'') s"

text \<open>\<^verbatim>\<open>s.replace(/^\[|\]$/g, '')\<close>: a leading \<open>[\<close> and a trailing \<open>]\<close> are removed.\<close>

definition strip_brackets :: "string \<Rightarrow> string" where
  "strip_brackets s =
     (let s1 = (if startsWith s ''['' then tl s else s)
      in if s1 \<noteq> [] \<and> last s1 = CHR '']'' then butlast s1 else s1)"

definition slice :: "'a list \<Rightarrow> nat \<Rightarrow> nat \<Rightarrow> 'a list" where
  "slice xs a b = take (b - a) (drop a xs)"

definition padStart :: "string \<Rightarrow> nat \<Rightarrow> char \<Rightarrow> string" where
  "padStart s n c = replicate (n - length s) c @ s"

subsection \<open>Numbers and their text\<close>

definition digit_char :: "nat \<Rightarrow> char" where
  "digit_char d = ''0123456789abcdefghijklmnopqrstuvwxyz'' ! d"

definition digit_val :: "char \<Rightarrow> nat option" where
  "digit_val c =
     (let n = (of_char c :: nat) in
      if 48 \<le> n \<and> n \<le> 57 then Some (n - 48)
      else if 97 \<le> n \<and> n \<le> 122 then Some (n - 87)
      else if 65 \<le> n \<and> n \<le> 90 then Some (n - 55)
      else None)"

text \<open>\<^verbatim>\<open>n.toString(radix)\<close> for a non-negative integer.\<close>

function toString :: "nat \<Rightarrow> nat \<Rightarrow> string" where
  "toString n radix =
     (if n < radix \<or> radix < 2 then [digit_char n]
      else toString (n div radix) radix @ [digit_char (n mod radix)])"
  by pat_completeness auto
termination
  by (relation "measure (\<lambda>(n, radix). n)") auto

declare toString.simps [simp del]

definition is_whitespace :: "char \<Rightarrow> bool" where
  "is_whitespace c = ((of_char c :: nat) \<in> {9, 10, 11, 12, 13, 32, 160})"

definition is_radix_digit :: "nat \<Rightarrow> char \<Rightarrow> bool" where
  "is_radix_digit radix c = (case digit_val c of None \<Rightarrow> False | Some d \<Rightarrow> d < radix)"

definition digits_value :: "nat \<Rightarrow> string \<Rightarrow> nat" where
  "digits_value radix ds = foldl (\<lambda>acc c. acc * radix + the (digit_val c)) 0 ds"

text \<open>
  \<^verbatim>\<open>parseInt(s, radix)\<close> for radix 10 and 16: leading white space is skipped, a sign is
  read, with radix 16 a prefix \<^verbatim>\<open>0x\<close> is skipped, and the longest run of digits is the
  value; \<open>None\<close> is \<^verbatim>\<open>NaN\<close>.
\<close>

definition parseInt :: "string \<Rightarrow> nat \<Rightarrow> int option" where
  "parseInt s radix =
     (let s1 = dropWhile is_whitespace s;
          neg = startsWith s1 ''-'';
          s2 = (if startsWith s1 ''-'' \<or> startsWith s1 ''+'' then tl s1 else s1);
          s3 = (if radix = 16 \<and> (startsWith s2 ''0x'' \<or> startsWith s2 ''0X'') then drop 2 s2 else s2);
          ds = takeWhile (is_radix_digit radix) s3
      in if ds = [] then None
         else Some (if neg then - int (digits_value radix ds) else int (digits_value radix ds)))"

text \<open>Storing a number into a \<^verbatim>\<open>Uint8Array\<close>: \<^verbatim>\<open>NaN\<close> becomes 0, an integer wraps.\<close>

definition to_uint8 :: "int option \<Rightarrow> byte" where
  "to_uint8 v = (case v of None \<Rightarrow> 0 | Some n \<Rightarrow> word_of_int n)"

section \<open>types.ts and errors.ts\<close>

datatype candidate_type = Host | Srflx

datatype protocol = Udp | Tcp

datatype tcp_type = Passive | Active | So

record QWBPCandidate =
  ip :: string
  port :: int
  type :: candidate_type
  protocol :: protocol
  tcpType :: "tcp_type option"

record QWBPPacket =
  version :: nat
  fingerprint :: "byte list"
  candidates :: "QWBPCandidate list"

record IceCredentials =
  ufrag :: string
  pwd :: string

datatype Role = Offerer | Answerer

datatype ConnectionState =
  Idle | Gathering | Displaying | ScannedOne | Connecting | Connected | Failed | Closed

text \<open>One constructor for each place where the encoder or the decoder throws.\<close>

datatype encode_failure =
  InvalidFingerprintLength | InvalidIPv4Address | InvalidIPv6Address
  | InvalidIPv4MappedAddress | InvalidMdnsUUID

datatype decode_failure =
  PacketTooShort | InvalidMagicByte | UnsupportedVersion | UnexpectedEndOfPacket
  | IncompleteIPv4Candidate | IncompleteIPv6Candidate | IncompleteMdnsCandidate
  | UnknownAddressFamily

datatype connection_failure =
  WrongState ConnectionState | PeerAlreadyScanned | InvalidPacket | NotInitialized

text \<open>
  The errors of the library, the \<^verbatim>\<open>RangeError\<close> of a typed array written beyond its end,
  the plain \<^verbatim>\<open>Error\<close> of \<^verbatim>\<open>deriveCredentials\<close>, and \<open>OutOfBounds\<close>, by which the model
  reports a read outside a byte array (the source would go on with \<^verbatim>\<open>undefined\<close> or a
  shorter slice).
\<close>

datatype error =
  QWBPEncodeError encode_failure
  | QWBPDecodeError decode_failure
  | QWBPConnectionError connection_failure
  | QWBPSelfConnectionError
  | RangeError
  | PlainError
  | OutOfBounds

section \<open>constants.ts\<close>

definition MAGIC_BYTE :: byte where "MAGIC_BYTE = 0x51"
definition PROTOCOL_VERSION :: byte where "PROTOCOL_VERSION = 0"
definition FINGERPRINT_SIZE :: nat where "FINGERPRINT_SIZE = 32"
definition HEADER_SIZE :: nat where "HEADER_SIZE = 2"
definition MIN_PACKET_SIZE :: nat where "MIN_PACKET_SIZE = HEADER_SIZE + FINGERPRINT_SIZE + 7"

lemmas constants_defs =
  MAGIC_BYTE_def PROTOCOL_VERSION_def FINGERPRINT_SIZE_def HEADER_SIZE_def MIN_PACKET_SIZE_def

section \<open>encoder.ts\<close>

definition isMdns :: "string \<Rightarrow> bool" where
  "isMdns a = endsWith a ''.local''"

definition isIPv6 :: "string \<Rightarrow> bool" where
  "isIPv6 a = str_includes a CHR '':''"

definition getCandidateSize :: "QWBPCandidate \<Rightarrow> nat" where
  "getCandidateSize c = (if isMdns (ip c) then 19 else if isIPv6 (ip c) then 19 else 7)"

text \<open>The loop of \<^verbatim>\<open>parseIPv4\<close> over the four parts.\<close>

fun parseIPv4_octets :: "string list \<Rightarrow> error + byte list" where
  "parseIPv4_octets [] = Inr []"
| "parseIPv4_octets (p # ps) =
     (case parseInt p 10 of
        None \<Rightarrow> Inl (QWBPEncodeError InvalidIPv4Address)
      | Some v \<Rightarrow>
          if v < 0 \<or> v > 255 then Inl (QWBPEncodeError InvalidIPv4Address)
          else (case parseIPv4_octets ps of
                  Inl e \<Rightarrow> Inl e
                | Inr bs \<Rightarrow> Inr (word_of_int v # bs)))"

definition parseIPv4 :: "string \<Rightarrow> error + byte list" where
  "parseIPv4 a =
     (let parts = split a ''.''
      in if length parts \<noteq> 4 then Inl (QWBPEncodeError InvalidIPv4Address)
         else parseIPv4_octets parts)"

definition is_hex_digit :: "char \<Rightarrow> bool" where
  "is_hex_digit c = (c \<in> set ''0123456789abcdefABCDEF'')"

definition is_dec_digit :: "char \<Rightarrow> bool" where
  "is_dec_digit c = (c \<in> set ''0123456789'')"

text \<open>
  The regular expression \<^verbatim>\<open>/^::ffff:(\d{1,3})\.(\d{1,3})\.(\d{1,3})\.(\d{1,3})$/i\<close>: the
  result is the list of the four captured groups.
\<close>

definition ipv4_mapped_match :: "string \<Rightarrow> string list option" where
  "ipv4_mapped_match s =
     (if take 3 s = ''::f'' \<or> take 3 s = ''::F'' then
        (if (\<forall>c \<in> set (take 3 (drop 3 s)). c = CHR ''f'' \<or> c = CHR ''F'') \<and>
            take 1 (drop 6 s) = '':''
         then (let groups = split (drop 7 s) ''.''
               in if length groups = 4 \<and>
                     (\<forall>g \<in> set groups. 1 \<le> length g \<and> length g \<le> 3 \<and> (\<forall>c \<in> set g. is_dec_digit c))
                  then Some groups else None)
         else None)
      else None)"

text \<open>The number of matches of \<^verbatim>\<open>/::/g\<close>.\<close>

fun count_double_colon :: "string \<Rightarrow> nat" where
  "count_double_colon (x # y # zs) =
     (if x = CHR '':'' \<and> y = CHR '':'' then Suc (count_double_colon zs)
      else count_double_colon (y # zs))"
| "count_double_colon _ = 0"

definition isValidIPv6Format :: "string \<Rightarrow> bool" where
  "isValidIPv6Format a =
     (let cleaned = strip_brackets a
      in if ipv4_mapped_match cleaned \<noteq> None then True
         else if \<not> (cleaned \<noteq> [] \<and> (\<forall>c \<in> set cleaned. is_hex_digit c \<or> c = CHR '':'')) then False
         else if count_double_colon cleaned > 1 then False
         else if (startsWith cleaned '':'' \<and> \<not> startsWith cleaned ''::'') \<or>
                 (endsWith cleaned '':'' \<and> \<not> endsWith cleaned ''::'') then False
         else True)"

text \<open>The loop over the four octets of an IPv4-mapped address.\<close>

fun parseMapped_octets :: "string list \<Rightarrow> error + byte list" where
  "parseMapped_octets [] = Inr []"
| "parseMapped_octets (g # gs) =
     (case parseInt g 10 of
        None \<Rightarrow> (case parseMapped_octets gs of Inl e \<Rightarrow> Inl e | Inr bs \<Rightarrow> Inr (0 # bs))
      | Some octet \<Rightarrow>
          if octet > 255 then Inl (QWBPEncodeError InvalidIPv4MappedAddress)
          else (case parseMapped_octets gs of
                  Inl e \<Rightarrow> Inl e
                | Inr bs \<Rightarrow> Inr (word_of_int octet # bs)))"

text \<open>The loop over the eight groups: each is at most four hexadecimal digits.\<close>

definition parseIPv6_group :: "string option \<Rightarrow> error + byte list" where
  "parseIPv6_group part =
     (let hexPart = (case part of None \<Rightarrow> ''0'' | Some g \<Rightarrow> if g = [] then ''0'' else g)
      in if length hexPart > 4 then Inl (QWBPEncodeError InvalidIPv6Address)
         else (case parseInt hexPart 16 of
                 None \<Rightarrow> Inl (QWBPEncodeError InvalidIPv6Address)
               | Some v \<Rightarrow>
                   if v > 0xffff then Inl (QWBPEncodeError InvalidIPv6Address)
                   else Inr [word_of_int (v div 256), word_of_int v]))"

fun parseIPv6_groups :: "string list \<Rightarrow> nat \<Rightarrow> nat \<Rightarrow> error + byte list" where
  "parseIPv6_groups allParts i 0 = Inr []"
| "parseIPv6_groups allParts i (Suc n) =
     (case parseIPv6_group (at allParts i) of
        Inl e \<Rightarrow> Inl e
      | Inr hl \<Rightarrow> (case parseIPv6_groups allParts (i + 1) n of
                     Inl e \<Rightarrow> Inl e
                   | Inr bs \<Rightarrow> Inr (hl @ bs)))"

definition truthy_part :: "string list \<Rightarrow> nat \<Rightarrow> bool" where
  "truthy_part parts i = (case at parts i of None \<Rightarrow> False | Some p \<Rightarrow> p \<noteq> [])"

definition parseIPv6 :: "string \<Rightarrow> error + byte list" where
  "parseIPv6 a =
     (let cleaned = strip_brackets a
      in if \<not> isValidIPv6Format cleaned then Inl (QWBPEncodeError InvalidIPv6Address)
         else (case ipv4_mapped_match cleaned of
                 Some groups \<Rightarrow>
                   (case parseMapped_octets groups of
                      Inl e \<Rightarrow> Inl e
                    | Inr octets \<Rightarrow> Inr (replicate 10 0 @ [0xff, 0xff] @ octets))
               | None \<Rightarrow>
                   (let parts = split cleaned ''::''
                    in if length parts > 2 then Inl (QWBPEncodeError InvalidIPv6Address)
                       else
                         (let leftParts = (if truthy_part parts 0
                                then filter (\<lambda>p. p \<noteq> []) (split (parts ! 0) '':'') else []);
                              rightParts = (if length parts > 1 \<and> truthy_part parts 1
                                then filter (\<lambda>p. p \<noteq> []) (split (parts ! 1) '':'') else []);
                              totalParts = length leftParts + length rightParts
                          in if totalParts > 8 \<or> (length parts = 1 \<and> totalParts \<noteq> 8)
                             then Inl (QWBPEncodeError InvalidIPv6Address)
                             else
                               (let zeroGroups = 8 - totalParts;
                                    allParts = leftParts @ replicate zeroGroups ''0'' @ rightParts
                                in parseIPv6_groups allParts 0 8)))))"

definition parseMdnsUUID :: "string \<Rightarrow> error + byte list" where
  "parseMdnsUUID hostname =
     (let uuid = remove_dashes (replace_first hostname ''.local'' [])
      in if length uuid \<noteq> 32 then Inl (QWBPEncodeError InvalidMdnsUUID)
         else Inr (map (\<lambda>i. to_uint8 (parseInt (slice uuid (i * 2) (i * 2 + 2)) 16)) [0..<16]))"

definition encode_flags :: "QWBPCandidate \<Rightarrow> byte \<Rightarrow> byte" where
  "encode_flags c addressFamily =
     (let proto = (if protocol c = Tcp then 1 else 0);
          ty = (if type c = Srflx then 1 else 0);
          tt = (if protocol c = Tcp then
                  (case tcpType c of
                     None \<Rightarrow> 0
                   | Some Active \<Rightarrow> 1
                   | Some So \<Rightarrow> 2
                   | Some Passive \<Rightarrow> 0)
                else 0)
      in addressFamily OR push_bit 2 proto OR push_bit 3 ty OR push_bit 4 tt)"

text \<open>
  \<^verbatim>\<open>encodeCandidate\<close>: the result array has room for exactly the flags byte, the address
  bytes and the two bytes of the port, which are written in that order.
\<close>

definition encodeCandidate :: "QWBPCandidate \<Rightarrow> error + byte list" where
  "encodeCandidate c =
     (let isMdnsAddr = isMdns (ip c);
          isIPv6Addr = (\<not> isMdnsAddr \<and> isIPv6 (ip c));
          addressFamily = (if isMdnsAddr then 2 else if isIPv6Addr then 1 else 0);
          parsed = (if isMdnsAddr then parseMdnsUUID (ip c)
                    else if isIPv6Addr then parseIPv6 (ip c)
                    else parseIPv4 (ip c))
      in case parsed of
           Inl e \<Rightarrow> Inl e
         | Inr addressBytes \<Rightarrow>
             Inr (encode_flags c addressFamily # addressBytes @
                  [word_of_int (port c div 256), word_of_int (port c)]))"

text \<open>\<^verbatim>\<open>dst.set(src, offset)\<close> on typed arrays.\<close>

definition typed_set :: "byte list \<Rightarrow> byte list \<Rightarrow> nat \<Rightarrow> error + byte list" where
  "typed_set dst src off =
     (if off + length src > length dst then Inl RangeError
      else Inr (take off dst @ src @ drop (off + length src) dst))"

fun encode_loop :: "byte list \<Rightarrow> nat \<Rightarrow> QWBPCandidate list \<Rightarrow> error + byte list" where
  "encode_loop packet offset [] = Inr packet"
| "encode_loop packet offset (c # cs) =
     (case encodeCandidate c of
        Inl e \<Rightarrow> Inl e
      | Inr encoded \<Rightarrow>
          (case typed_set packet encoded offset of
             Inl e \<Rightarrow> Inl e
           | Inr packet' \<Rightarrow> encode_loop packet' (offset + length encoded) cs))"

definition encode :: "byte list \<Rightarrow> QWBPCandidate list \<Rightarrow> error + byte list" where
  "encode fp cs =
     (if length fp \<noteq> FINGERPRINT_SIZE then Inl (QWBPEncodeError InvalidFingerprintLength)
      else
        (let candidatesSize = sum_list (map getCandidateSize cs);
             totalSize = HEADER_SIZE + FINGERPRINT_SIZE + candidatesSize;
             packet = (replicate totalSize 0) [0 := MAGIC_BYTE, 1 := PROTOCOL_VERSION]
         in case typed_set packet fp 2 of
              Inl e \<Rightarrow> Inl e
            | Inr packet' \<Rightarrow> encode_loop packet' (2 + FINGERPRINT_SIZE) cs))"

section \<open>decoder.ts\<close>

text \<open>
  Reads of the packet. The source never tests the index of a single read; the model does,
  and reports \<open>OutOfBounds\<close> where the source would read \<^verbatim>\<open>undefined\<close> or get a shorter
  slice than it asked for.
\<close>

definition read :: "byte list \<Rightarrow> nat \<Rightarrow> error + byte" where
  "read data i = (if i < length data then Inr (data ! i) else Inl OutOfBounds)"

definition read_slice :: "byte list \<Rightarrow> nat \<Rightarrow> nat \<Rightarrow> error + byte list" where
  "read_slice data a b = (if b \<le> length data then Inr (slice data a b) else Inl OutOfBounds)"

definition formatIPv4 :: "byte list \<Rightarrow> string" where
  "formatIPv4 bytes = join ''.'' (map (\<lambda>b. toString (unat b) 10) bytes)"

text \<open>The loop of \<^verbatim>\<open>formatIPv6\<close> over the eight groups of two bytes.\<close>

function ipv6_parts :: "byte list \<Rightarrow> nat \<Rightarrow> error + string list" where
  "ipv6_parts bytes i =
     (if i < 16 then
        (case read bytes i of
           Inl e \<Rightarrow> Inl e
         | Inr hi \<Rightarrow>
            (case read bytes (i + 1) of
               Inl e \<Rightarrow> Inl e
             | Inr lo \<Rightarrow>
                (case ipv6_parts bytes (i + 2) of
                   Inl e \<Rightarrow> Inl e
                 | Inr parts \<Rightarrow> Inr (toString (push_bit 8 (unat hi) OR unat lo) 16 # parts))))
      else Inr [])"
  by pat_completeness auto
termination
  by (relation "measure (\<lambda>(bytes, i). 16 - i)") auto

declare ipv6_parts.simps [simp del]

text \<open>
  The regular expression \<^verbatim>\<open>/(?:^|:)(0(?::0)+)(?::|$)/g\<close>. \<open>zero_reps\<close> counts how often
  \<^verbatim>\<open>:0\<close> can be repeated at the front of a string; \<open>try_reps\<close> is the backtracking over
  that count until \<^verbatim>\<open>(?::|$)\<close> matches; \<open>body_match\<close> is the length of a match of
  \<^verbatim>\<open>(0(?::0)+)(?::|$)\<close> at the front, and \<open>match_at\<close> that of the whole expression.
\<close>

fun zero_reps :: "string \<Rightarrow> nat" where
  "zero_reps (x # y # zs) = (if x = CHR '':'' \<and> y = CHR ''0'' then Suc (zero_reps zs) else 0)"
| "zero_reps _ = 0"

fun try_reps :: "string \<Rightarrow> nat \<Rightarrow> nat option" where
  "try_reps t 0 = None"
| "try_reps t (Suc j) =
     (let r = drop (1 + 2 * Suc j) t
      in if r \<noteq> [] \<and> hd r = CHR '':'' then Some (2 + 2 * Suc j)
         else if r = [] then Some (1 + 2 * Suc j)
         else try_reps t j)"

definition body_match :: "string \<Rightarrow> nat option" where
  "body_match t = (if t \<noteq> [] \<and> hd t = CHR ''0'' then try_reps t (zero_reps (tl t)) else None)"

definition match_at :: "bool \<Rightarrow> string \<Rightarrow> nat option" where
  "match_at at_start s =
     (case (if at_start then body_match s else None) of
        Some n \<Rightarrow> Some n
      | None \<Rightarrow>
          if s \<noteq> [] \<and> hd s = CHR '':'' then map_option Suc (body_match (tl s)) else None)"

function zero_run_matches :: "bool \<Rightarrow> string \<Rightarrow> string list" where
  "zero_run_matches at_start s =
     (case match_at at_start s of
        Some n \<Rightarrow> take n s # (if s = [] then [] else zero_run_matches False (drop (max n 1) s))
      | None \<Rightarrow> (case s of [] \<Rightarrow> [] | x # xs \<Rightarrow> zero_run_matches False xs))"
  by pat_completeness auto
termination
  by (relation "measure (\<lambda>(b, s). length s)") auto

declare zero_run_matches.simps [simp del]

text \<open>\<^verbatim>\<open>zeroRuns.reduce((a, b) => (a.length > b.length ? a : b))\<close>.\<close>

definition longest_run :: "string list \<Rightarrow> string" where
  "longest_run runs = foldl (\<lambda>a b. if length a > length b then a else b) (hd runs) (tl runs)"

definition compress_zero_runs :: "string \<Rightarrow> string" where
  "compress_zero_runs result =
     (let zeroRuns = zero_run_matches True result
      in if zeroRuns \<noteq> [] then replace_first result (longest_run zeroRuns) ''::'' else result)"

definition formatIPv6 :: "byte list \<Rightarrow> error + string" where
  "formatIPv6 bytes =
     (case ipv6_parts bytes 0 of
        Inl e \<Rightarrow> Inl e
      | Inr parts \<Rightarrow> Inr (compress_zero_runs (join '':'' parts)))"

definition formatMdns :: "byte list \<Rightarrow> string" where
  "formatMdns bytes =
     (let hex = concat (map (\<lambda>b. padStart (toString (unat b) 16) 2 CHR ''0'') bytes)
      in slice hex 0 8 @ ''-'' @ slice hex 8 12 @ ''-'' @ slice hex 12 16 @ ''-'' @
         slice hex 16 20 @ ''-'' @ slice hex 20 32 @ ''.local'')"

definition decode_tcpType :: "byte \<Rightarrow> tcp_type" where
  "decode_tcpType t = (if t = 1 then Active else if t = 2 then So else Passive)"

definition decodeCandidate :: "byte list \<Rightarrow> nat \<Rightarrow> error + (QWBPCandidate \<times> nat)" where
  "decodeCandidate data offset =
     (if offset \<ge> length data then Inl (QWBPDecodeError UnexpectedEndOfPacket)
      else
        (case read data offset of
           Inl e \<Rightarrow> Inl e
         | Inr flags \<Rightarrow>
            (let addressFamily = flags AND 3;
                 proto = drop_bit 2 flags AND 1;
                 ty = drop_bit 3 flags AND 1;
                 tt = drop_bit 4 flags AND 3;
                 addressLength = (if addressFamily = 0 then 4 else 16);
                 address =
                   (if addressFamily = 0 then
                      (if offset + 1 + addressLength + 2 > length data
                       then Inl (QWBPDecodeError IncompleteIPv4Candidate)
                       else (case read_slice data (offset + 1) (offset + 1 + addressLength) of
                               Inl e \<Rightarrow> Inl e
                             | Inr bytes \<Rightarrow> Inr (formatIPv4 bytes)))
                    else if addressFamily = 1 then
                      (if offset + 1 + addressLength + 2 > length data
                       then Inl (QWBPDecodeError IncompleteIPv6Candidate)
                       else (case read_slice data (offset + 1) (offset + 1 + addressLength) of
                               Inl e \<Rightarrow> Inl e
                             | Inr bytes \<Rightarrow> formatIPv6 bytes))
                    else if addressFamily = 2 then
                      (if offset + 1 + addressLength + 2 > length data
                       then Inl (QWBPDecodeError IncompleteMdnsCandidate)
                       else (case read_slice data (offset + 1) (offset + 1 + addressLength) of
                               Inl e \<Rightarrow> Inl e
                             | Inr bytes \<Rightarrow> Inr (formatMdns bytes)))
                    else Inl (QWBPDecodeError UnknownAddressFamily))
             in case address of
                  Inl e \<Rightarrow> Inl e
                | Inr a \<Rightarrow>
                   (let portOffset = offset + 1 + addressLength
                    in case read data portOffset of
                         Inl e \<Rightarrow> Inl e
                       | Inr hi \<Rightarrow>
                          (case read data (portOffset + 1) of
                             Inl e \<Rightarrow> Inl e
                           | Inr lo \<Rightarrow>
                              Inr (\<lparr>ip = a,
                                    port = push_bit 8 (uint hi) OR uint lo,
                                    type = (if ty = 1 then Srflx else Host),
                                    protocol = (if proto = 1 then Tcp else Udp),
                                    tcpType = (if proto = 1 then Some (decode_tcpType tt) else None)\<rparr>,
                                   1 + addressLength + 2))))))"

function decode_loop :: "byte list \<Rightarrow> nat \<Rightarrow> error + QWBPCandidate list" where
  "decode_loop data offset =
     (if offset < length data then
        (case decodeCandidate data offset of
           Inl e \<Rightarrow> Inl e
         | Inr (candidate, bytesRead) \<Rightarrow>
            (case decode_loop data (offset + bytesRead) of
               Inl e \<Rightarrow> Inl e
             | Inr cs \<Rightarrow> Inr (candidate # cs)))
      else Inr [])"
  by pat_completeness auto
termination
proof (relation "measure (\<lambda>(data, offset). length data - offset)")
  show "wf (measure (\<lambda>(data, offset). length data - offset))" by simp
next
  fix data :: "byte list" and offset x2 x y
  assume "offset < length data" and "decodeCandidate data offset = Inr x2" and "(x, y) = x2"
  then have "decodeCandidate data offset = Inr (x, y)" by simp
  then have "7 \<le> y"
    unfolding decodeCandidate_def Let_def by (auto split: if_splits sum.splits)
  then show "((data, offset + y), data, offset) \<in> measure (\<lambda>(data, offset). length data - offset)"
    using \<open>offset < length data\<close> by simp
qed

declare decode_loop.simps [simp del]

definition decode :: "byte list \<Rightarrow> error + QWBPPacket" where
  "decode data =
     (if length data < MIN_PACKET_SIZE then Inl (QWBPDecodeError PacketTooShort)
      else
        (case read data 0 of
           Inl e \<Rightarrow> Inl e
         | Inr magic \<Rightarrow>
            if magic \<noteq> MAGIC_BYTE then Inl (QWBPDecodeError InvalidMagicByte)
            else
              (case read data 1 of
                 Inl e \<Rightarrow> Inl e
               | Inr b1 \<Rightarrow>
                  (let ver = b1 AND 7
                   in if ver \<noteq> 0 then Inl (QWBPDecodeError UnsupportedVersion)
                      else
                        (case read_slice data HEADER_SIZE (HEADER_SIZE + FINGERPRINT_SIZE) of
                           Inl e \<Rightarrow> Inl e
                         | Inr fp \<Rightarrow>
                            (case decode_loop data (HEADER_SIZE + FINGERPRINT_SIZE) of
                               Inl e \<Rightarrow> Inl e
                             | Inr cs \<Rightarrow>
                                Inr \<lparr>version = unat ver, fingerprint = fp, candidates = cs\<rparr>))))))"

definition isValidPacket :: "byte list \<Rightarrow> bool" where
  "isValidPacket data =
     (if length data < MIN_PACKET_SIZE then False
      else if at data 0 \<noteq> Some MAGIC_BYTE then False
      else if map_option (\<lambda>b. b AND 7) (at data 1) \<noteq> Some 0 then False
      else True)"

section \<open>crypto.ts: credentials and the short authentication string\<close>

text \<open>
  The digest and the key derivation are functions of the platform
  (\<^verbatim>\<open>crypto.subtle.digest\<close> and \<^verbatim>\<open>crypto.subtle.deriveBits\<close>); the definitions below take
  them as parameters: \<open>sha256\<close> maps a message to its digest, and \<open>hkdf ikm salt info n\<close> is
  the derived key of \<open>n\<close> bytes.
\<close>

type_synonym digest_fn = "byte list \<Rightarrow> byte list"
type_synonym hkdf_fn = "byte list \<Rightarrow> byte list \<Rightarrow> byte list \<Rightarrow> nat \<Rightarrow> byte list"

definition HKDF_INFO_UFRAG :: string where "HKDF_INFO_UFRAG = ''QWBP-ICE-UFRAG-v1''"
definition HKDF_INFO_PWD :: string where "HKDF_INFO_PWD = ''QWBP-ICE-PWD-v1''"
definition HKDF_UFRAG_LENGTH :: nat where "HKDF_UFRAG_LENGTH = 4"
definition HKDF_PWD_LENGTH :: nat where "HKDF_PWD_LENGTH = 18"

text \<open>\<^verbatim>\<open>new TextEncoder().encode(s)\<close> on a string of ASCII characters.\<close>

definition text_encode :: "string \<Rightarrow> byte list" where
  "text_encode s = map (\<lambda>c. of_nat (of_char c)) s"

definition base64_char :: "nat \<Rightarrow> char" where
  "base64_char i =
     ''ABCDEFGHIJKLMNOPQRSTUVWXYZabcdefghijklmnopqrstuvwxyz0123456789+/'' ! i"

text \<open>
  \<^verbatim>\<open>btoa(String.fromCharCode(...bytes))\<close>: base64 with padding, three bytes giving four
  characters of six bits each.
\<close>

fun btoa :: "byte list \<Rightarrow> string" where
  "btoa [] = []"
| "btoa [a] =
     [base64_char (unat a div 4), base64_char (unat a mod 4 * 16), CHR ''='', CHR ''='']"
| "btoa [a, b] =
     [base64_char (unat a div 4), base64_char (unat a mod 4 * 16 + unat b div 16),
      base64_char (unat b mod 16 * 4), CHR ''='']"
| "btoa (a # b # c # rest) =
     [base64_char (unat a div 4), base64_char (unat a mod 4 * 16 + unat b div 16),
      base64_char (unat b mod 16 * 4 + unat c div 64), base64_char (unat c mod 64)] @ btoa rest"

definition replace_all_char :: "string \<Rightarrow> char \<Rightarrow> string \<Rightarrow> string" where
  "replace_all_char s c rep = concat (map (\<lambda>x. if x = c then rep else [x]) s)"

definition base64urlEncode :: "byte list \<Rightarrow> string" where
  "base64urlEncode bytes =
     replace_all_char (replace_all_char (replace_all_char (btoa bytes) CHR ''+'' ''-'')
       CHR ''/'' ''_'') CHR ''='' []"

definition deriveCredentials :: "hkdf_fn \<Rightarrow> byte list \<Rightarrow> error + IceCredentials" where
  "deriveCredentials hkdf fp =
     (if length fp \<noteq> 32 then Inl PlainError
      else
        (let salt = [];
             ufragBytes = hkdf fp salt (text_encode HKDF_INFO_UFRAG) HKDF_UFRAG_LENGTH;
             pwdBytes = hkdf fp salt (text_encode HKDF_INFO_PWD) HKDF_PWD_LENGTH
         in Inr \<lparr>ufrag = base64urlEncode ufragBytes, pwd = base64urlEncode pwdBytes\<rparr>))"

text \<open>A byte read used as an operand of a bit operation: \<^verbatim>\<open>undefined\<close> counts as 0.\<close>

definition js_num :: "byte option \<Rightarrow> nat" where
  "js_num x = (case x of None \<Rightarrow> 0 | Some b \<Rightarrow> unat b)"

definition generateSAS :: "digest_fn \<Rightarrow> byte list \<Rightarrow> byte list \<Rightarrow> error + string" where
  "generateSAS sha256 localFingerprint remoteFingerprint =
     (let comparison = compareFingerprints localFingerprint remoteFingerprint;
          combined = replicate 64 0;
          filled =
            (if comparison \<ge> 0 then
               (case typed_set combined localFingerprint 0 of
                  Inl e \<Rightarrow> Inl e
                | Inr c1 \<Rightarrow> typed_set c1 remoteFingerprint 32)
             else
               (case typed_set combined remoteFingerprint 0 of
                  Inl e \<Rightarrow> Inl e
                | Inr c1 \<Rightarrow> typed_set c1 localFingerprint 32))
      in case filled of
           Inl e \<Rightarrow> Inl e
         | Inr combined' \<Rightarrow>
            (let hashBytes = sha256 combined';
                 v = push_bit 8 (js_num (at hashBytes 0)) OR js_num (at hashBytes 1);
                 sasNumber = v mod 10000
             in Inr (padStart (toString sasNumber 10) 4 CHR ''0'')))"

section \<open>sdp.ts: candidate lines\<close>

definition type_string :: "candidate_type \<Rightarrow> string" where
  "type_string t = (case t of Host \<Rightarrow> ''host'' | Srflx \<Rightarrow> ''srflx'')"

definition protocol_string :: "protocol \<Rightarrow> string" where
  "protocol_string p = (case p of Udp \<Rightarrow> ''udp'' | Tcp \<Rightarrow> ''tcp'')"

definition tcpType_string :: "tcp_type \<Rightarrow> string" where
  "tcpType_string t = (case t of Passive \<Rightarrow> ''passive'' | Active \<Rightarrow> ''active'' | So \<Rightarrow> ''so'')"

text \<open>An integer inside a template string.\<close>

definition int_string :: "int \<Rightarrow> string" where
  "int_string i = (if i < 0 then CHR ''-'' # toString (nat (- i)) 10 else toString (nat i) 10)"

definition HOST_UDP :: nat where "HOST_UDP = 2122260223"
definition HOST_TCP :: nat where "HOST_TCP = 2105524223"
definition SRFLX :: nat where "SRFLX = 1686052607"

definition generateFoundation ::
  "digest_fn \<Rightarrow> candidate_type \<Rightarrow> protocol \<Rightarrow> string \<Rightarrow> int \<Rightarrow> string" where
  "generateFoundation sha256 t p a n =
     (let data = type_string t @ protocol_string p @ a @ int_string n;
          bytes = sha256 (text_encode data)
      in concat (map (\<lambda>b. padStart (toString (unat b) 16) 2 CHR ''0'') (slice bytes 0 4)))"

definition getCandidatePriority :: "candidate_type \<Rightarrow> protocol \<Rightarrow> nat" where
  "getCandidatePriority t p =
     (if t = Srflx then SRFLX else if p = Udp then HOST_UDP else HOST_TCP)"

definition buildCandidateString :: "digest_fn \<Rightarrow> QWBPCandidate \<Rightarrow> string" where
  "buildCandidateString sha256 c =
     (let foundation = generateFoundation sha256 (type c) (protocol c) (ip c) (port c);
          priority = getCandidatePriority (type c) (protocol c);
          str = ''candidate:'' @ foundation @ '' 1 '' @ protocol_string (protocol c) @ '' '' @
                toString priority 10 @ '' '' @ ip c @ '' '' @ int_string (port c) @
                '' typ '' @ type_string (type c);
          str1 = (if type c = Srflx
                  then str @ '' raddr '' @ ip c @ '' rport '' @ int_string (port c) else str)
      in if protocol c = Tcp \<and> tcpType c \<noteq> None
         then str1 @ '' tcptype '' @ tcpType_string (the (tcpType c)) else str1)"

section \<open>connection.ts: processing a scanned payload\<close>

text \<open>
  The fields of \<^verbatim>\<open>QWBPConnection\<close> that \<^verbatim>\<open>processScannedPayload\<close> reads or writes. The
  peer connection and the data channel are objects of the platform: the record holds
  whether each is present. The optional callbacks are taken to be absent.
\<close>

record PeerInfo =
  peer_fingerprint :: "byte list"
  peer_candidates :: "QWBPCandidate list"
  peer_credentials :: IceCredentials

record QWBPConnection =
  pc :: bool
  dataChannel :: bool
  state :: ConnectionState
  localFingerprint :: "byte list option"
  localCredentials :: "IceCredentials option"
  localCandidates :: "QWBPCandidate list"
  remoteInfo :: "PeerInfo option"
  role :: "Role option"

definition setState :: "QWBPConnection \<Rightarrow> ConnectionState \<Rightarrow> QWBPConnection" where
  "setState conn s = conn\<lparr>state := s\<rparr>"

definition handleError :: "QWBPConnection \<Rightarrow> QWBPConnection" where
  "handleError conn = setState conn Failed"

text \<open>
  \<^verbatim>\<open>tryEstablishConnection\<close>. What the calls on the peer connection do is outside the
  library: \<open>negotiate r info\<close> tells how the calls of the branch for role \<open>r\<close> end. Either
  all of them return; or \<^verbatim>\<open>createDataChannel\<close>, the first call of the offerer, throws, and
  then no data channel has been assigned; or a later call throws. The answerer creates no
  data channel, its channel arrives with a later event.
\<close>

datatype Negotiation = AllReturn | ChannelThrows | LaterThrows

definition tryEstablishConnection ::
  "hkdf_fn \<Rightarrow> (Role \<Rightarrow> PeerInfo \<Rightarrow> Negotiation) \<Rightarrow> QWBPConnection \<Rightarrow> QWBPConnection" where
  "tryEstablishConnection hkdf negotiate conn =
     (case (localFingerprint conn, localCredentials conn, remoteInfo conn) of
        (Some lf, Some lc, Some info) \<Rightarrow>
          if \<not> pc conn then conn
          else
            (let comparison = compareFingerprints lf (peer_fingerprint info)
             in if comparison = 0 then handleError conn
                else
                  (let r = (if comparison > 0 then Offerer else Answerer);
                       conn1 = setState (conn\<lparr>role := Some r\<rparr>) Connecting
                   in case deriveCredentials hkdf (peer_fingerprint info) of
                        Inl e \<Rightarrow> handleError conn1
                      | Inr remoteCredentials \<Rightarrow>
                         (case negotiate r info of
                            ChannelThrows \<Rightarrow> handleError conn1
                          | LaterThrows \<Rightarrow>
                              handleError
                                (if r = Offerer then conn1\<lparr>dataChannel := True\<rparr> else conn1)
                          | AllReturn \<Rightarrow>
                              (if r = Offerer then conn1\<lparr>dataChannel := True\<rparr> else conn1))))
      | _ \<Rightarrow> conn)"

text \<open>
  \<^verbatim>\<open>processScannedPayload\<close>: the result is the error thrown, if any, and the connection
  as the call leaves it.
\<close>

definition processScannedPayload ::
  "hkdf_fn \<Rightarrow> (Role \<Rightarrow> PeerInfo \<Rightarrow> Negotiation) \<Rightarrow> QWBPConnection \<Rightarrow> byte list
     \<Rightarrow> error option \<times> QWBPConnection" where
  "processScannedPayload hkdf negotiate conn data =
     (if state conn \<noteq> Displaying \<and> state conn \<noteq> ScannedOne
      then (Some (QWBPConnectionError (WrongState (state conn))), conn)
      else if remoteInfo conn \<noteq> None then (Some (QWBPConnectionError PeerAlreadyScanned), conn)
      else if \<not> isValidPacket data then (Some (QWBPConnectionError InvalidPacket), conn)
      else
        (case decode data of
           Inl e \<Rightarrow> (Some e, conn)
         | Inr packet \<Rightarrow>
            (case deriveCredentials hkdf (fingerprint packet) of
               Inl e \<Rightarrow> (Some e, conn)
             | Inr credentials \<Rightarrow>
                (let conn1 = conn\<lparr>remoteInfo := Some \<lparr>peer_fingerprint = fingerprint packet,
                                 peer_candidates = candidates packet,
                                 peer_credentials = credentials\<rparr>\<rparr>
                 in if (case localFingerprint conn1 of
                          None \<Rightarrow> False
                        | Some lf \<Rightarrow> compareFingerprints lf (fingerprint packet) = 0)
                    then (Some QWBPSelfConnectionError, conn1)
                    else
                      (let conn2 = (if state conn1 = Displaying then setState conn1 ScannedOne
                                    else conn1)
                       in (None, tryEstablishConnection hkdf negotiate conn2))))))"

section \<open>Test fixtures\<close>

text \<open>The fingerprints of the test fixtures, and the packet of the specification's example.\<close>

definition TEST_FINGERPRINT :: "byte list" where
  "TEST_FINGERPRINT =
     [0xe7, 0x3b, 0x38, 0x46, 0x1a, 0x5d, 0x88, 0xb0,
      0xc4, 0x2e, 0x9f, 0x7a, 0x1d, 0x6c, 0x3e, 0x8b,
      0x5f, 0x4a, 0x9d, 0x2c, 0x7e, 0x1b, 0x6f, 0x3a,
      0x8d, 0x5c, 0x2e, 0x9b, 0x4f, 0x7a, 0x1c, 0x3d]"

definition TEST_PEER_FINGERPRINT :: "byte list" where
  "TEST_PEER_FINGERPRINT =
     [0xa1, 0x2b, 0x3c, 0x4d, 0x5e, 0x6f, 0x70, 0x81,
      0x92, 0xa3, 0xb4, 0xc5, 0xd6, 0xe7, 0xf8, 0x09,
      0x1a, 0x2b, 0x3c, 0x4d, 0x5e, 0x6f, 0x70, 0x81,
      0x92, 0xa3, 0xb4, 0xc5, 0xd6, 0xe7, 0xf8, 0x09]"

definition EXAMPLE_CANDIDATE :: QWBPCandidate where
  "EXAMPLE_CANDIDATE =
     \<lparr>ip = ''192.168.1.5'', port = 54321, type = Host, protocol = Udp, tcpType = None\<rparr>"

definition EXAMPLE_PACKET :: "byte list" where
  "EXAMPLE_PACKET =
     [0x51, 0x00] @ TEST_FINGERPRINT @ [0x00, 0xC0, 0xA8, 0x01, 0x05, 0xD4, 0x31]"

section \<open>Notions of the specification\<close>

text \<open>The two fingerprints in canonical order: the greater or equal one first.\<close>

definition canonical_concat :: "byte list \<Rightarrow> byte list \<Rightarrow> byte list" where
  "canonical_concat a b = (if compareFingerprints a b \<ge> 0 then a @ b else b @ a)"

text \<open>The URL-safe base64 alphabet.\<close>

definition url_safe_alphabet :: string where
  "url_safe_alphabet = ''ABCDEFGHIJKLMNOPQRSTUVWXYZabcdefghijklmnopqrstuvwxyz0123456789-_''"

definition is_url_safe :: "char \<Rightarrow> bool" where
  "is_url_safe c = (c \<in> set url_safe_alphabet)"

text \<open>The three replacements of \<open>base64urlEncode\<close>, as one function of the base64 text.\<close>

definition url_chain :: "string \<Rightarrow> string" where
  "url_chain s = replace_all_char (replace_all_char (replace_all_char s CHR ''+'' ''-'')
     CHR ''/'' ''_'') CHR ''='' []"

text \<open>
  The candidate records of a packet, as the wire format lays them out: a record starts at
  byte 34, the length a record declares is 7 bytes for the address family IPv4 and 19 for
  IPv6 and mDNS, and the next record starts where the one before ends. A record is
  faulty if its address family is the value 3, or if its declared length reaches beyond
  the end of the input.
\<close>

definition record_length :: "byte \<Rightarrow> nat" where
  "record_length flags = (if flags AND 3 = 0 then 7 else 19)"

fun record_offset_from :: "byte list \<Rightarrow> nat \<Rightarrow> nat \<Rightarrow> nat" where
  "record_offset_from data off 0 = off"
| "record_offset_from data off (Suc k) =
     record_offset_from data (off + record_length (data ! off)) k"

definition faulty_at :: "byte list \<Rightarrow> nat \<Rightarrow> bool" where
  "faulty_at data off =
     (off < length data \<and>
      (data ! off AND 3 = 3 \<or> off + record_length (data ! off) > length data))"

definition faulty_record :: "byte list \<Rightarrow> nat \<Rightarrow> bool" where
  "faulty_record data k = faulty_at data (record_offset_from data 34 k)"

text \<open>The text that \<open>formatIPv6\<close> gives for an address of 16 bytes.\<close>

definition ipv6_text :: "byte list \<Rightarrow> string" where
  "ipv6_text bytes =
     compress_zero_runs (join '':''
       (map (\<lambda>k. toString (push_bit 8 (unat (bytes ! (2 * k))) OR unat (bytes ! (2 * k + 1))) 16)
          [0..<8]))"

text \<open>
  The address bytes of a text: the choice that \<^verbatim>\<open>encodeCandidate\<close> makes between the three
  parsers, as one function.
\<close>

definition parse_address :: "string \<Rightarrow> error + byte list" where
  "parse_address a =
     (if isMdns a then parseMdnsUUID a else if isIPv6 a then parseIPv6 a else parseIPv4 a)"

text \<open>The records of all candidates, one after the other; the first error wins.\<close>

fun encode_all :: "QWBPCandidate list \<Rightarrow> error + byte list" where
  "encode_all [] = Inr []"
| "encode_all (c # cs) =
     (case encodeCandidate c of
        Inl e \<Rightarrow> Inl e
      | Inr bs \<Rightarrow> (case encode_all cs of Inl e \<Rightarrow> Inl e | Inr rest \<Rightarrow> Inr (bs @ rest)))"

text \<open>The groups of an IPv6 address text: the non-empty pieces between colons.\<close>

definition ipv6_groups :: "string \<Rightarrow> string list" where
  "ipv6_groups s = filter (\<lambda>p. p \<noteq> []) (split s '':'')"

text \<open>The digits that \<open>toString\<close> writes with radix 10 or 16.\<close>

definition lower_hex :: "char \<Rightarrow> bool" where
  "lower_hex c = (c \<in> set ''0123456789abcdef'')"

text \<open>
  An address text is canonical when the decoder writes the address exactly so: parsing
  the text, as the encoder does, and formatting the bytes, as the decoder does for that
  family, gives the text back.
\<close>

definition format_address :: "string \<Rightarrow> byte list \<Rightarrow> error + string" where
  "format_address a bs =
     (if isMdns a then Inr (formatMdns bs)
      else if isIPv6 a then formatIPv6 bs
      else Inr (formatIPv4 bs))"

definition canonical_address :: "string \<Rightarrow> bool" where
  "canonical_address a =
     (case parse_address a of Inl e \<Rightarrow> False | Inr bs \<Rightarrow> format_address a bs = Inr a)"

text \<open>
  A candidate as it comes off the wire: a canonical address, a port from 1 to 65535, and
  a tcp subtype exactly when the protocol is tcp.
\<close>

definition wire_candidate :: "QWBPCandidate \<Rightarrow> bool" where
  "wire_candidate c =
     (canonical_address (ip c) \<and> 1 \<le> port c \<and> port c \<le> 65535 \<and>
      (tcpType c = None \<longleftrightarrow> protocol c = Udp))"

section \<open>Properties of the comparison\<close>

lemma compare_loop_range: "compare_loop a b i \<in> {- 1, 0, 1}"
proof (induction a b i rule: compare_loop.induct)
  case (1 a b i)
  then show ?case by (subst compare_loop.simps) auto
qed

lemma compare_loop_zero_iff:
  assumes "length a = 32" "length b = 32"
  shows "compare_loop a b i = 0 \<longleftrightarrow> (\<forall>j. i \<le> j \<and> j < 32 \<longrightarrow> a ! j = b ! j)"
  using assms
proof (induction a b i rule: compare_loop.induct)
  case (1 a b i)
  show ?case
  proof (cases "i < 32")
    case False
    then show ?thesis by (subst compare_loop.simps) auto
  next
    case True
    note lt = True
    show ?thesis
    proof (cases "a ! i = b ! i")
      case True
      then have nogt: "\<not> js_gt (at a i) (at b i)" and nolt: "\<not> js_lt (at a i) (at b i)"
        using lt 1(2,3) by (simp_all add: js_gt_def js_lt_def at_def)
      have "compare_loop a b i = compare_loop a b (i + 1)"
        by (subst compare_loop.simps) (simp add: lt nogt nolt)
      also have "\<dots> = 0 \<longleftrightarrow> (\<forall>j. i + 1 \<le> j \<and> j < 32 \<longrightarrow> a ! j = b ! j)"
        using 1(1) [OF lt nogt nolt] 1(2,3) by simp
      also have "\<dots> \<longleftrightarrow> (\<forall>j. i \<le> j \<and> j < 32 \<longrightarrow> a ! j = b ! j)"
        using True by (metis Suc_eq_plus1 Suc_leI le_neq_implies_less le_trans lessI less_imp_le_nat)
      finally show ?thesis .
    next
      case False
      then have "js_gt (at a i) (at b i) \<or> js_lt (at a i) (at b i)"
        using lt 1(2,3) by (auto simp: js_gt_def js_lt_def at_def)
      then have "compare_loop a b i \<noteq> 0"
        by (subst compare_loop.simps) (auto simp: lt)
      then show ?thesis using False lt by auto
    qed
  qed
qed


lemma compare_loop_first_diff:
  assumes "length a = 32" "length b = 32"
  shows "(compare_loop a b i = - 1 \<longleftrightarrow>
           (\<exists>k. i \<le> k \<and> k < 32 \<and> (\<forall>j. i \<le> j \<and> j < k \<longrightarrow> a ! j = b ! j) \<and> a ! k < b ! k)) \<and>
         (compare_loop a b i = 1 \<longleftrightarrow>
           (\<exists>k. i \<le> k \<and> k < 32 \<and> (\<forall>j. i \<le> j \<and> j < k \<longrightarrow> a ! j = b ! j) \<and> b ! k < a ! k))"
  using assms
proof (induction a b i rule: compare_loop.induct)
  case (1 a b i)
  let ?L = "\<lambda>i. \<exists>k. i \<le> k \<and> k < 32 \<and> (\<forall>j. i \<le> j \<and> j < k \<longrightarrow> a ! j = b ! j) \<and> a ! k < b ! k"
  let ?G = "\<lambda>i. \<exists>k. i \<le> k \<and> k < 32 \<and> (\<forall>j. i \<le> j \<and> j < k \<longrightarrow> a ! j = b ! j) \<and> b ! k < a ! k"
  have both: "(compare_loop a b i = - 1 \<longleftrightarrow> ?L i) \<and> (compare_loop a b i = 1 \<longleftrightarrow> ?G i)"
  proof (cases "i < 32")
    case False
    then have "compare_loop a b i = 0" by (subst compare_loop.simps) simp
    moreover have "\<not> ?L i" "\<not> ?G i" using False by auto
    ultimately show ?thesis by simp
  next
    case True
    note lt = True
    have rd: "at a i = Some (a ! i)" "at b i = Some (b ! i)"
      using lt 1(2,3) by (simp_all add: at_def)
    consider (gt) "b ! i < a ! i" | (ls) "a ! i < b ! i" | (eq) "a ! i = b ! i"
      using linorder_less_linear by blast
    then show ?thesis
    proof cases
      case gt
      then have v: "compare_loop a b i = 1"
        by (subst compare_loop.simps) (simp add: lt rd js_gt_def)
      have g: "?G i" using gt lt by (intro exI [of _ i]) auto
      have "\<not> ?L i"
      proof
        assume "?L i"
        then obtain k where k: "i \<le> k" "k < 32" "\<forall>j. i \<le> j \<and> j < k \<longrightarrow> a ! j = b ! j" "a ! k < b ! k"
          by blast
        show False
        proof (cases "k = i")
          case True
          then show ?thesis using k(4) gt by simp
        next
          case False
          then have "a ! i = b ! i" using k(1,3) by simp
          then show ?thesis using gt by simp
        qed
      qed
      then show ?thesis using v g by simp
    next
      case ls
      then have ngt: "\<not> b ! i < a ! i" by simp
      have v: "compare_loop a b i = - 1"
        by (subst compare_loop.simps) (simp add: lt rd js_gt_def js_lt_def ngt ls)
      have l: "?L i" using ls lt by (intro exI [of _ i]) auto
      have "\<not> ?G i"
      proof
        assume "?G i"
        then obtain k where k: "i \<le> k" "k < 32" "\<forall>j. i \<le> j \<and> j < k \<longrightarrow> a ! j = b ! j" "b ! k < a ! k"
          by blast
        show False
        proof (cases "k = i")
          case True
          then show ?thesis using k(4) ls by simp
        next
          case False
          then have "a ! i = b ! i" using k(1,3) by simp
          then show ?thesis using ls by simp
        qed
      qed
      then show ?thesis using v l by simp
    next
      case eq
      have nogt: "\<not> js_gt (at a i) (at b i)" and nolt: "\<not> js_lt (at a i) (at b i)"
        using eq by (simp_all add: rd js_gt_def js_lt_def)
      have step: "compare_loop a b i = compare_loop a b (i + 1)"
        by (subst compare_loop.simps) (simp add: lt nogt nolt)
      have shiftL: "?L (i + 1) \<longleftrightarrow> ?L i"
      proof
        assume "?L (i + 1)"
        then obtain k where k: "i + 1 \<le> k" "k < 32"
          "\<forall>j. i + 1 \<le> j \<and> j < k \<longrightarrow> a ! j = b ! j" "a ! k < b ! k" by blast
        have "\<forall>j. i \<le> j \<and> j < k \<longrightarrow> a ! j = b ! j"
        proof (intro allI impI)
          fix j assume j: "i \<le> j \<and> j < k"
          show "a ! j = b ! j"
          proof (cases "j = i")
            case True then show ?thesis using eq by simp
          next
            case False then show ?thesis using j k(3) by simp
          qed
        qed
        then show "?L i" using k by (intro exI [of _ k]) simp
      next
        assume "?L i"
        then obtain k where k: "i \<le> k" "k < 32"
          "\<forall>j. i \<le> j \<and> j < k \<longrightarrow> a ! j = b ! j" "a ! k < b ! k" by blast
        have "k \<noteq> i" using k(4) eq by auto
        then have "i + 1 \<le> k" using k(1) by simp
        then show "?L (i + 1)" using k by (intro exI [of _ k]) simp
      qed
      have shiftG: "?G (i + 1) \<longleftrightarrow> ?G i"
      proof
        assume "?G (i + 1)"
        then obtain k where k: "i + 1 \<le> k" "k < 32"
          "\<forall>j. i + 1 \<le> j \<and> j < k \<longrightarrow> a ! j = b ! j" "b ! k < a ! k" by blast
        have "\<forall>j. i \<le> j \<and> j < k \<longrightarrow> a ! j = b ! j"
        proof (intro allI impI)
          fix j assume j: "i \<le> j \<and> j < k"
          show "a ! j = b ! j"
          proof (cases "j = i")
            case True then show ?thesis using eq by simp
          next
            case False then show ?thesis using j k(3) by simp
          qed
        qed
        then show "?G i" using k by (intro exI [of _ k]) simp
      next
        assume "?G i"
        then obtain k where k: "i \<le> k" "k < 32"
          "\<forall>j. i \<le> j \<and> j < k \<longrightarrow> a ! j = b ! j" "b ! k < a ! k" by blast
        have "k \<noteq> i" using k(4) eq by auto
        then have "i + 1 \<le> k" using k(1) by simp
        then show "?G (i + 1)" using k by (intro exI [of _ k]) simp
      qed
      from 1(1) [OF lt nogt nolt 1(2,3)]
      show ?thesis using step shiftL shiftG by simp
    qed
  qed
  from both show ?case .
qed


lemma compareFingerprints_range: "compareFingerprints a b \<in> {- 1, 0, 1}"
  unfolding compareFingerprints_def by (rule compare_loop_range)

lemma compareFingerprints_eq_iff:
  assumes "length a = 32" "length b = 32"
  shows "compareFingerprints a b = 0 \<longleftrightarrow> a = b"
proof -
  have "compareFingerprints a b = 0 \<longleftrightarrow> (\<forall>j<32. a ! j = b ! j)"
    unfolding compareFingerprints_def using compare_loop_zero_iff [OF assms, of 0] by simp
  also have "\<dots> \<longleftrightarrow> a = b"
    using assms by (auto intro: nth_equalityI)
  finally show ?thesis .
qed

lemma compareFingerprints_less_iff:
  assumes "length a = 32" "length b = 32"
  shows "compareFingerprints a b = - 1 \<longleftrightarrow> (\<exists>k<32. (\<forall>j<k. a ! j = b ! j) \<and> a ! k < b ! k)"
  unfolding compareFingerprints_def using compare_loop_first_diff [OF assms, of 0] by simp

lemma compareFingerprints_greater_iff:
  assumes "length a = 32" "length b = 32"
  shows "compareFingerprints a b = 1 \<longleftrightarrow> (\<exists>k<32. (\<forall>j<k. a ! j = b ! j) \<and> b ! k < a ! k)"
  unfolding compareFingerprints_def using compare_loop_first_diff [OF assms, of 0] by simp

lemma compareFingerprints_swap:
  assumes "length a = 32" "length b = 32"
  shows "compareFingerprints b a = 1 \<longleftrightarrow> compareFingerprints a b = - 1"
proof -
  have "(\<exists>k<32. (\<forall>j<k. b ! j = a ! j) \<and> a ! k < b ! k) \<longleftrightarrow>
        (\<exists>k<32. (\<forall>j<k. a ! j = b ! j) \<and> a ! k < b ! k)"
    by (simp add: eq_commute)
  then show ?thesis
    using compareFingerprints_greater_iff [OF assms(2,1)] compareFingerprints_less_iff [OF assms]
    by simp
qed

lemma compareFingerprints_trans:
  assumes len: "length a = 32" "length b = 32" "length c = 32"
    and ab: "compareFingerprints a b = - 1" and bc: "compareFingerprints b c = - 1"
  shows "compareFingerprints a c = - 1"
proof -
  from ab obtain k1 where k1: "k1 < 32" "\<forall>j<k1. a ! j = b ! j" "a ! k1 < b ! k1"
    using compareFingerprints_less_iff [OF len(1,2)] by blast
  from bc obtain k2 where k2: "k2 < 32" "\<forall>j<k2. b ! j = c ! j" "b ! k2 < c ! k2"
    using compareFingerprints_less_iff [OF len(2,3)] by blast
  have "\<exists>k<32. (\<forall>j<k. a ! j = c ! j) \<and> a ! k < c ! k"
  proof (cases "k1 < k2")
    case True
    then have "a ! k1 < c ! k1" using k1(3) k2(2) by simp
    moreover have "\<forall>j<k1. a ! j = c ! j" using True k1(2) k2(2) by simp
    ultimately show ?thesis using k1(1) by blast
  next
    case False
    show ?thesis
    proof (cases "k1 = k2")
      case True
      then have "a ! k1 < c ! k1" using k1(3) k2(3) by simp
      moreover have "\<forall>j<k1. a ! j = c ! j" using True k1(2) k2(2) by simp
      ultimately show ?thesis using k1(1) by blast
    next
      case neq: False
      then have lt: "k2 < k1" using False by simp
      then have "a ! k2 < c ! k2" using k1(2) k2(3) by simp
      moreover have "\<forall>j<k2. a ! j = c ! j" using lt k1(2) k2(2) by simp
      ultimately show ?thesis using k2(1) by blast
    qed
  qed
  then show ?thesis using compareFingerprints_less_iff [OF len(1,3)] by simp
qed

text \<open>
  C7. On two 32-byte fingerprints \<open>compareFingerprints\<close> is the byte-wise lexicographic
  comparison: the result is 1, -1 or 0; it is 1 (or -1) exactly when at the first index
  where the inputs differ the byte of the first input is the greater (or the smaller); it
  is 0 exactly when the inputs are identical. The order it induces is asymmetric,
  transitive and trichotomous, and two fingerprints that differ only at byte 7, 0x33
  against 0x34, are ordered by that byte.
\<close>

theorem compareFingerprints_lexicographic:
  assumes "length a = 32" "length b = 32" "length c = 32"
  shows "compareFingerprints a b \<in> {- 1, 0, 1} \<and>
         (compareFingerprints a b = 1 \<longleftrightarrow> (\<exists>k<32. (\<forall>j<k. a ! j = b ! j) \<and> b ! k < a ! k)) \<and>
         (compareFingerprints a b = - 1 \<longleftrightarrow> (\<exists>k<32. (\<forall>j<k. a ! j = b ! j) \<and> a ! k < b ! k)) \<and>
         (compareFingerprints a b = 0 \<longleftrightarrow> a = b) \<and>
         (fp_less a b \<longrightarrow> \<not> fp_less b a) \<and>
         (fp_less a b \<and> fp_less b c \<longrightarrow> fp_less a c) \<and>
         (fp_less a b \<or> a = b \<or> fp_less b a) \<and>
         ((\<forall>j<32. j \<noteq> 7 \<longrightarrow> a ! j = b ! j) \<and> a ! 7 = 0x33 \<and> b ! 7 = 0x34 \<longrightarrow>
            compareFingerprints a b = - 1 \<and> compareFingerprints b a = 1)"
proof -
  have asym: "fp_less a b \<longrightarrow> \<not> fp_less b a"
    unfolding fp_less_def using compareFingerprints_swap [OF assms(2,1)] by auto
  have trans: "fp_less a b \<and> fp_less b c \<longrightarrow> fp_less a c"
    unfolding fp_less_def using compareFingerprints_trans [OF assms] by blast
  have tri: "fp_less a b \<or> a = b \<or> fp_less b a"
    unfolding fp_less_def
    using compareFingerprints_range [of a b] compareFingerprints_eq_iff [OF assms(1,2)]
      compareFingerprints_swap [OF assms(2,1)] by auto
  have seven: "compareFingerprints a b = - 1 \<and> compareFingerprints b a = 1"
    if h: "(\<forall>j<32. j \<noteq> 7 \<longrightarrow> a ! j = b ! j) \<and> a ! 7 = 0x33 \<and> b ! 7 = 0x34"
  proof -
    have "(\<forall>j<7. a ! j = b ! j) \<and> a ! 7 < b ! 7" using h by simp
    then have "\<exists>k<32. (\<forall>j<k. a ! j = b ! j) \<and> a ! k < b ! k"
      by (intro exI [of _ 7]) simp
    then have "compareFingerprints a b = - 1"
      using compareFingerprints_less_iff [OF assms(1,2)] by simp
    then show ?thesis using compareFingerprints_swap [OF assms(1,2)] by simp
  qed
  show ?thesis
    using compareFingerprints_range [of a b] compareFingerprints_greater_iff [OF assms(1,2)]
      compareFingerprints_less_iff [OF assms(1,2)] compareFingerprints_eq_iff [OF assms(1,2)]
      asym trans tri seven
    by blast
qed

theorem compareFingerprints_lexicographic_witness:
  "length TEST_PEER_FINGERPRINT = 32 \<and> length (TEST_FINGERPRINT [7 := 0x33]) = 32 \<and>
   length (TEST_FINGERPRINT [7 := 0x34]) = 32 \<and>
   fp_less TEST_PEER_FINGERPRINT (TEST_FINGERPRINT [7 := 0x33]) \<and>
   fp_less (TEST_FINGERPRINT [7 := 0x33]) (TEST_FINGERPRINT [7 := 0x34]) \<and>
   fp_less TEST_PEER_FINGERPRINT (TEST_FINGERPRINT [7 := 0x34]) \<and>
   \<not> fp_less (TEST_FINGERPRINT [7 := 0x34]) (TEST_FINGERPRINT [7 := 0x33]) \<and>
   compareFingerprints (TEST_FINGERPRINT [7 := 0x34]) (TEST_FINGERPRINT [7 := 0x33]) = 1"
proof -
  let ?p = "TEST_PEER_FINGERPRINT" and ?a = "TEST_FINGERPRINT [7 := 0x33]"
    and ?b = "TEST_FINGERPRINT [7 := 0x34]"
  have len: "length ?p = 32" "length ?a = 32" "length ?b = 32"
    by (simp_all add: TEST_FINGERPRINT_def TEST_PEER_FINGERPRINT_def)
  have pa: "fp_less ?p ?a"
    by (simp add: fp_less_def compareFingerprints_def compare_loop.simps [of _ _ 0]
        at_def js_gt_def js_lt_def TEST_FINGERPRINT_def TEST_PEER_FINGERPRINT_def)
  have "\<forall>j<32. j \<noteq> 7 \<longrightarrow> ?a ! j = ?b ! j" by simp
  moreover have "?a ! 7 = 0x33 \<and> ?b ! 7 = 0x34" by (simp add: TEST_FINGERPRINT_def)
  ultimately have diff: "(\<forall>j<32. j \<noteq> 7 \<longrightarrow> ?a ! j = ?b ! j) \<and> ?a ! 7 = 0x33 \<and> ?b ! 7 = 0x34"
    by blast
  from compareFingerprints_lexicographic [OF len(2,3,3)] diff
  have ab: "compareFingerprints ?a ?b = - 1" "compareFingerprints ?b ?a = 1" by blast+
  then have ab': "fp_less ?a ?b" by (simp add: fp_less_def)
  from compareFingerprints_lexicographic [OF len(1,2,3)] pa ab'
  have pb: "fp_less ?p ?b" by blast
  from compareFingerprints_lexicographic [OF len(2,3,3)] ab'
  have nba: "\<not> fp_less ?b ?a" by blast
  show ?thesis using len pa ab' pb nba ab(2) by blast
qed

section \<open>Evaluation on concrete inputs\<close>

lemmas decode_eval =
  decode_def decodeCandidate_def decode_loop.simps read_def read_slice_def slice_def
  constants_defs formatIPv4_def toString.simps digit_char_def decode_tcpType_def Let_def

lemma decode_EXAMPLE_PACKET:
  "decode EXAMPLE_PACKET =
     Inr \<lparr>version = 0, fingerprint = TEST_FINGERPRINT, candidates = [EXAMPLE_CANDIDATE]\<rparr>"
  by (simp add: EXAMPLE_PACKET_def EXAMPLE_CANDIDATE_def TEST_FINGERPRINT_def decode_eval)

text \<open>
  C9. Encoding the fingerprint E7 3B 38 46 ... 1C 3D with the single candidate
  192.168.1.5, port 54321, host, udp gives exactly 41 bytes: 0x51, 0x00, the 32 bytes of
  the fingerprint, then 0x00 0xC0 0xA8 0x01 0x05 0xD4 0x31.
\<close>

theorem encode_example:
  "encode [0xE7, 0x3B, 0x38, 0x46, 0x1A, 0x5D, 0x88, 0xB0, 0xC4, 0x2E, 0x9F, 0x7A, 0x1D, 0x6C,
           0x3E, 0x8B, 0x5F, 0x4A, 0x9D, 0x2C, 0x7E, 0x1B, 0x6F, 0x3A, 0x8D, 0x5C, 0x2E, 0x9B,
           0x4F, 0x7A, 0x1C, 0x3D]
     [\<lparr>ip = ''192.168.1.5'', port = 54321, type = Host, protocol = Udp, tcpType = None\<rparr>] =
   Inr [0x51, 0x00,
        0xE7, 0x3B, 0x38, 0x46, 0x1A, 0x5D, 0x88, 0xB0, 0xC4, 0x2E, 0x9F, 0x7A, 0x1D, 0x6C,
        0x3E, 0x8B, 0x5F, 0x4A, 0x9D, 0x2C, 0x7E, 0x1B, 0x6F, 0x3A, 0x8D, 0x5C, 0x2E, 0x9B,
        0x4F, 0x7A, 0x1C, 0x3D,
        0x00, 0xC0, 0xA8, 0x01, 0x05, 0xD4, 0x31] \<and>
   length [0x51, 0x00 :: byte,
        0xE7, 0x3B, 0x38, 0x46, 0x1A, 0x5D, 0x88, 0xB0, 0xC4, 0x2E, 0x9F, 0x7A, 0x1D, 0x6C,
        0x3E, 0x8B, 0x5F, 0x4A, 0x9D, 0x2C, 0x7E, 0x1B, 0x6F, 0x3A, 0x8D, 0x5C, 0x2E, 0x9B,
        0x4F, 0x7A, 0x1C, 0x3D,
        0x00, 0xC0, 0xA8, 0x01, 0x05, 0xD4, 0x31] = 41"
  by code_simp

section \<open>The candidate line of a server-reflexive candidate\<close>

text \<open>
  C4. For a server-reflexive candidate \<open>buildCandidateString\<close> is to append the fixed text
  \<^verbatim>\<open>raddr 0.0.0.0 rport 9\<close>. Evaluated on the candidate 203.0.113.50, port 54322,
  server-reflexive, udp, the function appends the candidate's own address and port.
\<close>

theorem buildCandidateString_srflx_example:
  "buildCandidateString sha256
     \<lparr>ip = ''203.0.113.50'', port = 54322, type = Srflx, protocol = Udp, tcpType = None\<rparr> =
   ''candidate:'' @ generateFoundation sha256 Srflx Udp ''203.0.113.50'' 54322 @
   '' 1 udp 1686052607 203.0.113.50 54322 typ srflx raddr 203.0.113.50 rport 54322''"
  by (simp add: buildCandidateString_def getCandidatePriority_def SRFLX_def int_string_def
      type_string_def protocol_string_def toString.simps digit_char_def)

section \<open>Scanning one's own payload\<close>

lemma compare_loop_same: "b = a \<Longrightarrow> compare_loop a b i = 0"
proof (induction a b i rule: compare_loop.induct)
  case (1 a b i)
  have "\<not> js_gt (at a i) (at b i)" "\<not> js_lt (at a i) (at b i)"
    using 1(2) by (simp_all add: js_gt_def js_lt_def split: option.splits)
  then show ?case using 1 by (subst compare_loop.simps) simp
qed

lemma compareFingerprints_refl: "compareFingerprints a a = 0"
  by (simp add: compareFingerprints_def compare_loop_same)

lemma decode_Inr_header:
  assumes "decode data = Inr packet"
  shows "MIN_PACKET_SIZE \<le> length data \<and> data ! 0 = MAGIC_BYTE \<and> data ! 1 AND 7 = 0 \<and>
         version packet = 0 \<and> fingerprint packet = slice data 2 34"
  using assms unfolding decode_def Let_def read_def read_slice_def
  by (auto simp: constants_defs split: if_splits sum.splits)


lemma decode_Inr_isValidPacket:
  assumes "decode data = Inr packet"
  shows "isValidPacket data"
proof -
  have "41 \<le> length data" "data ! 0 = 0x51" "data ! 1 AND 7 = 0"
    using decode_Inr_header [OF assms] by (simp_all add: constants_defs)
  moreover have "0 < length data" "1 < length data" using \<open>41 \<le> length data\<close> by arith+
  ultimately show ?thesis by (simp add: isValidPacket_def at_def constants_defs)
qed




text \<open>
  Where no peer is recorded, the peer information is stored before the fingerprints are
  compared, and it stays stored when the self-connection error is thrown.
\<close>

lemma processScannedPayload_self_records_peer:
  "remoteInfo (snd (processScannedPayload (\<lambda>ikm salt info n. replicate n 0) (\<lambda>r i. AllReturn)
     \<lparr>pc = True, dataChannel = False, state = Displaying,
      localFingerprint = Some TEST_FINGERPRINT, localCredentials = None,
      localCandidates = [EXAMPLE_CANDIDATE], remoteInfo = None, role = None\<rparr>
     EXAMPLE_PACKET)) \<noteq> None"
proof -
  have "isValidPacket EXAMPLE_PACKET"
    using decode_EXAMPLE_PACKET by (rule decode_Inr_isValidPacket)
  moreover have "length TEST_FINGERPRINT = 32" by (simp add: TEST_FINGERPRINT_def)
  ultimately show ?thesis
    using decode_EXAMPLE_PACKET
    by (simp add: processScannedPayload_def deriveCredentials_def Let_def
        compareFingerprints_refl)
qed

section \<open>The short authentication string\<close>

lemma push_bit_or_add_nat:
  assumes "y < 256"
  shows "push_bit 8 (x::nat) OR y = x * 256 + y"
proof -
  have "push_bit 8 x + y = push_bit 8 x OR y"
  proof (rule disjunctive_add)
    fix n
    show "\<not> bit (push_bit 8 x) n \<or> \<not> bit y n"
    proof (cases "n < 8")
      case True
      then show ?thesis by (simp add: bit_push_bit_iff)
    next
      case False
      then have "(2::nat) ^ 8 \<le> 2 ^ n" by (intro power_increasing) simp_all
      then have "y < 2 ^ n" using assms by simp
      then have "\<not> bit y n" by (simp add: bit_iff_odd)
      then show ?thesis by simp
    qed
  qed
  then show ?thesis by (simp add: push_bit_eq_mult)
qed

lemma unat_byte_less: "unat (b :: byte) < 256"
  using unsigned_less [of b, where 'a = nat] by simp

text \<open>Decimal and hexadecimal numerals of bounded numbers.\<close>

lemma digit_char_dec: "d < 10 \<Longrightarrow> is_dec_digit (digit_char d)"
proof -
  assume "d < 10"
  then have "d = 0 \<or> d = 1 \<or> d = 2 \<or> d = 3 \<or> d = 4 \<or> d = 5 \<or> d = 6 \<or> d = 7 \<or> d = 8 \<or> d = 9"
    by arith
  then show ?thesis
    by (elim disjE) (simp_all add: digit_char_def is_dec_digit_def)
qed

lemma toString_dec_digits: "\<forall>c \<in> set (toString n 10). is_dec_digit c"
proof (induction n "10 :: nat" rule: toString.induct)
  case (1 n)
  show ?case
  proof (cases "n < 10")
    case True
    then show ?thesis by (subst toString.simps) (simp add: digit_char_dec)
  next
    case False
    then have "\<forall>c \<in> set (toString (n div 10) 10). is_dec_digit c" using 1 by simp
    then show ?thesis using False
      by (subst toString.simps) (simp add: digit_char_dec)
  qed
qed

lemma toString_length_le: "2 \<le> r \<Longrightarrow> n < r ^ k \<Longrightarrow> 0 < k \<Longrightarrow> length (toString n r) \<le> k"
proof (induction n r arbitrary: k rule: toString.induct)
  case (1 n r)
  show ?case
  proof (cases "n < r")
    case True
    then show ?thesis using 1(4) by (subst toString.simps) simp
  next
    case False
    then have k: "1 < k" using 1(3,4)
      by (metis One_nat_def Suc_lessI power_one_right)
    then obtain k' where k': "k = Suc k'" "0 < k'" by (cases k) auto
    have "n div r < r ^ k'"
      using 1(3) k'(1) 1(2) by (simp add: less_mult_imp_div_less mult.commute)
    then have "length (toString (n div r) r) \<le> k'"
      using 1(1) [of k'] False 1(2) k'(2) by simp
    then show ?thesis using False 1(2) k'(1)
      by (subst toString.simps) simp
  qed
qed

lemma typed_set_pair:
  assumes "length a = 32" "length b = 32"
  shows "(case typed_set (replicate 64 0) a 0 of Inl e \<Rightarrow> Inl e | Inr c1 \<Rightarrow> typed_set c1 b 32)
           = Inr (a @ b)"
  using assms by (simp add: typed_set_def)

lemma canonical_concat_commute:
  assumes "length a = 32" "length b = 32"
  shows "canonical_concat a b = canonical_concat b a"
proof -
  consider (eq) "compareFingerprints a b = 0" | (gt) "compareFingerprints a b = 1"
    | (lt) "compareFingerprints a b = - 1"
    using compareFingerprints_range [of a b] by auto
  then show ?thesis
  proof cases
    case eq
    then have "a = b" using compareFingerprints_eq_iff [OF assms] by simp
    then show ?thesis by simp
  next
    case gt
    then have "compareFingerprints b a = - 1"
      using compareFingerprints_swap [OF assms(2,1)] by simp
    then show ?thesis using gt by (simp add: canonical_concat_def)
  next
    case lt
    then have "compareFingerprints b a = 1"
      using compareFingerprints_swap [OF assms] by simp
    then show ?thesis using lt by (simp add: canonical_concat_def)
  qed
qed

lemma generateSAS_eq:
  assumes "length a = 32" "length b = 32" "\<forall>m. length (sha256 m) = 32"
  shows "generateSAS sha256 a b =
           Inr (padStart (toString ((unat (sha256 (canonical_concat a b) ! 0) * 256 +
                  unat (sha256 (canonical_concat a b) ! 1)) mod 10000) 10) 4 CHR ''0'')"
proof -
  let ?h = "sha256 (canonical_concat a b)"
  have len: "length ?h = 32" using assms(3) by simp
  have rd: "js_num (at ?h 0) = unat (?h ! 0)" "js_num (at ?h 1) = unat (?h ! 1)"
    using len by (simp_all add: js_num_def at_def)
  have v: "push_bit 8 (js_num (at ?h 0)) OR js_num (at ?h 1) = unat (?h ! 0) * 256 + unat (?h ! 1)"
    unfolding rd by (rule push_bit_or_add_nat) (rule unat_byte_less)
  show ?thesis
  proof (cases "compareFingerprints a b \<ge> 0")
    case True
    then have c: "canonical_concat a b = a @ b" by (simp add: canonical_concat_def)
    show ?thesis
      using True v typed_set_pair [OF assms(1,2)]
      by (simp add: generateSAS_def Let_def c)
  next
    case False
    then have c: "canonical_concat a b = b @ a" by (simp add: canonical_concat_def)
    show ?thesis
      using False v typed_set_pair [OF assms(2,1)]
      by (simp add: generateSAS_def Let_def c)
  qed
qed

text \<open>
  C8. For 32-byte fingerprints \<open>a\<close> and \<open>b\<close> (and a digest of 32 bytes) \<open>generateSAS a b\<close>
  and \<open>generateSAS b a\<close> are equal; the result is a string of four decimal digits: the
  first two bytes of the digest of the canonically ordered concatenation (64 bytes, the
  greater or equal fingerprint first), read as a 16-bit number, reduced modulo 10000 and
  padded with zeros to four digits.
\<close>

theorem generateSAS_symmetric:
  assumes "length a = 32" "length b = 32" "\<forall>m. length (sha256 m) = 32"
  shows "generateSAS sha256 a b = generateSAS sha256 b a \<and>
         length (canonical_concat a b) = 64 \<and>
         generateSAS sha256 a b =
           Inr (padStart (toString ((unat (sha256 (canonical_concat a b) ! 0) * 256 +
                  unat (sha256 (canonical_concat a b) ! 1)) mod 10000) 10) 4 CHR ''0'') \<and>
         (\<exists>s. generateSAS sha256 a b = Inr s \<and> length s = 4 \<and> (\<forall>c \<in> set s. is_dec_digit c))"
proof -
  let ?n = "(unat (sha256 (canonical_concat a b) ! 0) * 256 +
             unat (sha256 (canonical_concat a b) ! 1)) mod 10000"
  let ?s = "padStart (toString ?n 10) 4 CHR ''0''"
  have ab: "generateSAS sha256 a b = Inr ?s" by (rule generateSAS_eq [OF assms])
  have ba: "generateSAS sha256 b a = Inr ?s"
    using generateSAS_eq [OF assms(2,1,3)] canonical_concat_commute [OF assms(1,2)] by simp
  have "?n < 10 ^ 4" by simp
  then have l: "length (toString ?n 10) \<le> 4" by (intro toString_length_le) simp_all
  then have len: "length ?s = 4" by (simp add: padStart_def)
  have zero: "is_dec_digit CHR ''0''" by (simp add: is_dec_digit_def)
  have dig: "\<forall>c \<in> set ?s. is_dec_digit c"
    using toString_dec_digits [of ?n] zero by (auto simp: padStart_def)
  have cl: "length (canonical_concat a b) = 64"
    using assms(1,2) by (simp add: canonical_concat_def)
  show ?thesis using ab ba len dig cl by simp
qed

theorem generateSAS_symmetric_witness:
  "length TEST_FINGERPRINT = 32 \<and> length TEST_PEER_FINGERPRINT = 32 \<and>
   (\<forall>m :: byte list. length (take 32 (m @ replicate 32 0)) = 32) \<and>
   generateSAS (\<lambda>m. take 32 (m @ replicate 32 0)) TEST_FINGERPRINT TEST_PEER_FINGERPRINT =
     generateSAS (\<lambda>m. take 32 (m @ replicate 32 0)) TEST_PEER_FINGERPRINT TEST_FINGERPRINT \<and>
   generateSAS (\<lambda>m. take 32 (m @ replicate 32 0)) TEST_FINGERPRINT TEST_PEER_FINGERPRINT =
     Inr ''9195''"
proof -
  let ?H = "\<lambda>m :: byte list. take 32 (m @ replicate 32 0)"
  have l: "length TEST_FINGERPRINT = 32" "length TEST_PEER_FINGERPRINT = 32"
    by (simp_all add: TEST_FINGERPRINT_def TEST_PEER_FINGERPRINT_def)
  have h: "\<forall>m. length (?H m) = 32" by auto
  have gt: "compareFingerprints TEST_FINGERPRINT TEST_PEER_FINGERPRINT = 1"
    by (simp add: compareFingerprints_def compare_loop.simps [of _ _ 0] at_def js_gt_def
        TEST_FINGERPRINT_def TEST_PEER_FINGERPRINT_def)
  have c: "canonical_concat TEST_FINGERPRINT TEST_PEER_FINGERPRINT =
             TEST_FINGERPRINT @ TEST_PEER_FINGERPRINT"
    using gt by (simp add: canonical_concat_def)
  have hd: "?H (TEST_FINGERPRINT @ TEST_PEER_FINGERPRINT) = TEST_FINGERPRINT"
    using l by simp
  have v: "padStart (toString ((unat (TEST_FINGERPRINT ! 0) * 256 + unat (TEST_FINGERPRINT ! 1))
             mod 10000) 10) 4 CHR ''0'' = ''9195''"
    by (simp add: TEST_FINGERPRINT_def padStart_def toString.simps digit_char_def)
  note r = generateSAS_symmetric [of TEST_FINGERPRINT TEST_PEER_FINGERPRINT ?H, OF l h]
  have sym: "generateSAS ?H TEST_FINGERPRINT TEST_PEER_FINGERPRINT =
          generateSAS ?H TEST_PEER_FINGERPRINT TEST_FINGERPRINT"
    using r by (rule conjunct1)
  have "generateSAS ?H TEST_FINGERPRINT TEST_PEER_FINGERPRINT =
          Inr (padStart (toString ((unat (?H (canonical_concat TEST_FINGERPRINT TEST_PEER_FINGERPRINT) ! 0) * 256 +
                  unat (?H (canonical_concat TEST_FINGERPRINT TEST_PEER_FINGERPRINT) ! 1)) mod 10000) 10) 4 CHR ''0'')"
    using r by blast
  then have val: "generateSAS ?H TEST_FINGERPRINT TEST_PEER_FINGERPRINT = Inr ''9195''"
    unfolding c hd v .
  show ?thesis using l h sym val by (intro conjI)
qed

section \<open>Derived credentials\<close>

lemma replace_all_char_append:
  "replace_all_char (x @ y) c r = replace_all_char x c r @ replace_all_char y c r"
  by (simp add: replace_all_char_def)

lemma base64urlEncode_char:
  assumes "k < 64"
  shows "replace_all_char (replace_all_char (replace_all_char [base64_char k] CHR ''+'' ''-'')
           CHR ''/'' ''_'') CHR ''='' [] = [url_safe_alphabet ! k]"
proof -
  have "k = 0 \<or> k = 1 \<or> k = 2 \<or> k = 3 \<or> k = 4 \<or> k = 5 \<or> k = 6 \<or> k = 7 \<or> k = 8 \<or> k = 9 \<or> k = 10 \<or> k = 11 \<or> k = 12 \<or> k = 13 \<or> k = 14 \<or> k = 15 \<or> k = 16 \<or> k = 17 \<or> k = 18 \<or> k = 19 \<or> k = 20 \<or> k = 21 \<or> k = 22 \<or> k = 23 \<or> k = 24 \<or> k = 25 \<or> k = 26 \<or> k = 27 \<or> k = 28 \<or> k = 29 \<or> k = 30 \<or> k = 31 \<or> k = 32 \<or> k = 33 \<or> k = 34 \<or> k = 35 \<or> k = 36 \<or> k = 37 \<or> k = 38 \<or> k = 39 \<or> k = 40 \<or> k = 41 \<or> k = 42 \<or> k = 43 \<or> k = 44 \<or> k = 45 \<or> k = 46 \<or> k = 47 \<or> k = 48 \<or> k = 49 \<or> k = 50 \<or> k = 51 \<or> k = 52 \<or> k = 53 \<or> k = 54 \<or> k = 55 \<or> k = 56 \<or> k = 57 \<or> k = 58 \<or> k = 59 \<or> k = 60 \<or> k = 61 \<or> k = 62 \<or> k = 63"
    using assms by arith
  then show ?thesis
    by (elim disjE) (simp_all add: replace_all_char_def base64_char_def url_safe_alphabet_def)
qed

lemma base64urlEncode_padding:
  "replace_all_char (replace_all_char (replace_all_char ''='' CHR ''+'' ''-'')
     CHR ''/'' ''_'') CHR ''='' [] = []"
  by (simp add: replace_all_char_def)

lemma url_chain_append: "url_chain (x @ y) = url_chain x @ url_chain y"
  by (simp add: url_chain_def replace_all_char_append)

lemma url_chain_Cons: "url_chain (c # s) = url_chain [c] @ url_chain s"
  using url_chain_append [of "[c]" s] by simp

lemma url_chain_char: "k < 64 \<Longrightarrow> url_chain [base64_char k] = [url_safe_alphabet ! k]"
  unfolding url_chain_def by (rule base64urlEncode_char)

lemma url_chain_pad: "url_chain ''='' = []"
  unfolding url_chain_def by (rule base64urlEncode_padding)

lemma url_chain_Nil: "url_chain [] = []"
  by (simp add: url_chain_def replace_all_char_def)

lemma url_safe_nth: "k < 64 \<Longrightarrow> is_url_safe (url_safe_alphabet ! k)"
  unfolding is_url_safe_def by (rule nth_mem) (simp add: url_safe_alphabet_def)

lemma sextet_bounds:
  fixes a b c :: byte
  shows "unat a div 4 < 64" "unat a mod 4 * 16 < 64" "unat a mod 4 * 16 + unat b div 16 < 64"
    "unat b mod 16 * 4 < 64" "unat b mod 16 * 4 + unat c div 64 < 64" "unat c mod 64 < 64"
  using unat_byte_less [of a] unat_byte_less [of b] unat_byte_less [of c] by arith+

lemma base64urlEncode_length_chars:
  "length (url_chain (btoa bytes)) = (4 * length bytes + 2) div 3 \<and>
   (\<forall>ch \<in> set (url_chain (btoa bytes)). is_url_safe ch)"
proof (induction bytes rule: btoa.induct)
  case 1
  show ?case by (simp add: url_chain_Nil)
next
  case (2 a)
  have "url_chain (btoa [a]) =
          [url_safe_alphabet ! (unat a div 4), url_safe_alphabet ! (unat a mod 4 * 16)]"
    by (simp add: url_chain_Cons [of _ "_ # _"] url_chain_char sextet_bounds url_chain_pad)
  then show ?case by (simp add: url_safe_nth sextet_bounds)
next
  case (3 a b)
  have "url_chain (btoa [a, b]) =
          [url_safe_alphabet ! (unat a div 4),
           url_safe_alphabet ! (unat a mod 4 * 16 + unat b div 16),
           url_safe_alphabet ! (unat b mod 16 * 4)]"
    by (simp add: url_chain_Cons [of _ "_ # _"] url_chain_char sextet_bounds url_chain_pad)
  then show ?case by (simp add: url_safe_nth sextet_bounds)
next
  case (4 a b c rest)
  have "url_chain (btoa (a # b # c # rest)) =
          [url_safe_alphabet ! (unat a div 4),
           url_safe_alphabet ! (unat a mod 4 * 16 + unat b div 16),
           url_safe_alphabet ! (unat b mod 16 * 4 + unat c div 64),
           url_safe_alphabet ! (unat c mod 64)] @ url_chain (btoa rest)"
    by (simp add: url_chain_Cons [of _ "_ # _"] url_chain_Cons [of _ "btoa rest"]
        url_chain_char sextet_bounds)
  then show ?case using 4 by (simp add: url_safe_nth sextet_bounds)
qed

lemma base64urlEncode_url_chain: "base64urlEncode bytes = url_chain (btoa bytes)"
  by (simp add: base64urlEncode_def url_chain_def)

text \<open>
  C6. \<open>deriveCredentials\<close> is a function of the fingerprint (and of the key derivation
  of the platform, which returns as many bytes as it is asked for): on a 32-byte
  fingerprint it returns credentials, the same for equal fingerprints; the ufrag is the
  base64url text of the 4 bytes derived with the UFRAG info string and has 6 characters,
  the pwd is that of the 18 bytes derived with the PWD info string and has 24
  characters, and every character of both is in the URL-safe base64 alphabet.
\<close>

theorem deriveCredentials_shape:
  assumes "length fp = 32" and "\<forall>ikm salt info n. length (hkdf ikm salt info n) = n"
  shows "(\<forall>fp'. fp' = fp \<longrightarrow> deriveCredentials hkdf fp' = deriveCredentials hkdf fp) \<and>
         (\<exists>cr. deriveCredentials hkdf fp = Inr cr \<and>
            ufrag cr = base64urlEncode (hkdf fp [] (text_encode ''QWBP-ICE-UFRAG-v1'') 4) \<and>
            pwd cr = base64urlEncode (hkdf fp [] (text_encode ''QWBP-ICE-PWD-v1'') 18) \<and>
            length (ufrag cr) = 6 \<and> length (pwd cr) = 24 \<and>
            (\<forall>ch \<in> set (ufrag cr). is_url_safe ch) \<and> (\<forall>ch \<in> set (pwd cr). is_url_safe ch))"
proof -
  let ?u = "hkdf fp [] (text_encode ''QWBP-ICE-UFRAG-v1'') 4"
  let ?p = "hkdf fp [] (text_encode ''QWBP-ICE-PWD-v1'') 18"
  have d: "deriveCredentials hkdf fp =
             Inr \<lparr>ufrag = base64urlEncode ?u, pwd = base64urlEncode ?p\<rparr>"
    using assms(1)
    by (simp add: deriveCredentials_def Let_def HKDF_INFO_UFRAG_def HKDF_INFO_PWD_def
        HKDF_UFRAG_LENGTH_def HKDF_PWD_LENGTH_def)
  have lu: "length ?u = 4" and lp: "length ?p = 18" using assms(2) by simp_all
  have u: "length (base64urlEncode ?u) = 6 \<and> (\<forall>ch \<in> set (base64urlEncode ?u). is_url_safe ch)"
    using base64urlEncode_length_chars [of ?u] lu by (simp add: base64urlEncode_url_chain)
  have p: "length (base64urlEncode ?p) = 24 \<and> (\<forall>ch \<in> set (base64urlEncode ?p). is_url_safe ch)"
    using base64urlEncode_length_chars [of ?p] lp by (simp add: base64urlEncode_url_chain)
  show ?thesis using d u p by simp
qed

theorem deriveCredentials_shape_witness:
  "length TEST_FINGERPRINT = 32 \<and>
   (\<forall>ikm salt info n. length ((\<lambda>ikm salt info n. take n (ikm @ info @ replicate n (0 :: byte)))
      ikm salt info n) = n) \<and>
   deriveCredentials (\<lambda>ikm salt info n. take n (ikm @ info @ replicate n 0)) TEST_FINGERPRINT =
     Inr \<lparr>ufrag = ''5zs4Rg'', pwd = ''5zs4RhpdiLDELp96HWw-i19K''\<rparr>"
proof -
  let ?K = "\<lambda>(ikm :: byte list) (salt :: byte list) (info :: byte list) n.
              take n (ikm @ info @ replicate n (0 :: byte))"
  have l: "length TEST_FINGERPRINT = 32" by (simp add: TEST_FINGERPRINT_def)
  have h: "\<forall>ikm salt info n. length (?K ikm salt info n) = n" by auto
  from deriveCredentials_shape [of TEST_FINGERPRINT ?K, OF l h]
  obtain cr where cr: "deriveCredentials ?K TEST_FINGERPRINT = Inr cr"
    "ufrag cr = base64urlEncode (?K TEST_FINGERPRINT [] (text_encode ''QWBP-ICE-UFRAG-v1'') 4)"
    "pwd cr = base64urlEncode (?K TEST_FINGERPRINT [] (text_encode ''QWBP-ICE-PWD-v1'') 18)"
    by blast
  have "ufrag cr = ''5zs4Rg''"
    unfolding cr(2)
    by (simp add: TEST_FINGERPRINT_def base64urlEncode_def replace_all_char_def base64_char_def)
  moreover have "pwd cr = ''5zs4RhpdiLDELp96HWw-i19K''"
    unfolding cr(3)
    by (simp add: TEST_FINGERPRINT_def base64urlEncode_def replace_all_char_def base64_char_def)
  ultimately have "cr = \<lparr>ufrag = ''5zs4Rg'', pwd = ''5zs4RhpdiLDELp96HWw-i19K''\<rparr>"
    by (cases cr) simp
  then show ?thesis using l h cr(1) by simp
qed

section \<open>The decoder: totality and the inputs it rejects\<close>

lemma and3_cases:
  fixes x :: byte
  shows "x AND 3 = 0 \<or> x AND 3 = 1 \<or> x AND 3 = 2 \<or> x AND 3 = 3"
proof -
  have "x AND 3 \<le> 3" by (rule word_and_le1)
  then have "unat (x AND 3) \<le> 3" by (simp add: word_le_nat_alt)
  then have "unat (x AND 3) = 0 \<or> unat (x AND 3) = 1 \<or> unat (x AND 3) = 2 \<or> unat (x AND 3) = 3"
    by arith
  then show ?thesis
    by (elim disjE) (simp_all add: word_unat_eq_iff)
qed

lemma ipv6_parts_eq:
  assumes "length bytes = 16" "even i"
  shows "ipv6_parts bytes i =
           Inr (map (\<lambda>k. toString (push_bit 8 (unat (bytes ! (2 * k))) OR unat (bytes ! (2 * k + 1))) 16)
                  [i div 2..<8])"
  using assms
proof (induction bytes i rule: ipv6_parts.induct)
  case (1 bytes i)
  show ?case
  proof (cases "i < 16")
    case False
    then show ?thesis by (subst ipv6_parts.simps) simp
  next
    case True
    then have i1: "i + 1 < 16" using 1(3) by presburger
    have rd: "read bytes i = Inr (bytes ! i)" "read bytes (i + 1) = Inr (bytes ! (i + 1))"
      using True i1 1(2) by (simp_all add: read_def)
    have rd': "read bytes (Suc i) = Inr (bytes ! Suc i)" using rd(2) by simp
    have ev: "even (i + 2)" using 1(3) by simp
    have ih: "ipv6_parts bytes (i + 2) =
                Inr (map (\<lambda>k. toString (push_bit 8 (unat (bytes ! (2 * k))) OR unat (bytes ! (2 * k + 1))) 16)
                       [(i + 2) div 2..<8])"
      using 1(1) [OF True rd(1) rd(2) 1(2) ev] .
    have lt: "i div 2 < 8" using True by simp
    have idx: "2 * (i div 2) = i" using 1(3) by simp
    have up: "[i div 2..<8] = i div 2 # [Suc (i div 2)..<8]"
      using lt by (simp add: upt_conv_Cons)
    have ih': "ipv6_parts bytes (Suc (Suc i)) =
                Inr (map (\<lambda>k. toString (push_bit 8 (unat (bytes ! (2 * k))) OR unat (bytes ! (2 * k + 1))) 16)
                       [Suc (i div 2)..<8])"
      using ih by simp
    show ?thesis
      by (subst ipv6_parts.simps) (simp add: True rd rd' ih' up idx del: upt_Suc)
  qed
qed

lemma formatIPv6_eq:
  assumes "length bytes = 16"
  shows "formatIPv6 bytes = Inr (ipv6_text bytes)"
  using ipv6_parts_eq [OF assms, of 0] by (simp add: formatIPv6_def ipv6_text_def)

lemma decodeCandidate_unknown_family:
  assumes "offset < length data" "data ! offset AND 3 = 3"
  shows "decodeCandidate data offset = Inl (QWBPDecodeError UnknownAddressFamily)"
  using assms by (simp add: decodeCandidate_def read_def Let_def)

lemma decodeCandidate_truncated:
  assumes "offset < length data" "data ! offset AND 3 \<noteq> 3"
    and "offset + record_length (data ! offset) > length data"
  shows "\<exists>f. decodeCandidate data offset = Inl (QWBPDecodeError f)"
  using assms and3_cases [of "data ! offset"]
  by (auto simp: decodeCandidate_def read_def Let_def record_length_def)

lemma decodeCandidate_complete:
  assumes "offset < length data" "data ! offset AND 3 \<noteq> 3"
    and "offset + record_length (data ! offset) \<le> length data"
  shows "\<exists>c. decodeCandidate data offset = Inr (c, record_length (data ! offset))"
proof -
  consider (v4) "data ! offset AND 3 = 0" | (v6) "data ! offset AND 3 = 1"
    | (md) "data ! offset AND 3 = 2"
    using and3_cases [of "data ! offset"] assms(2) by blast
  then show ?thesis
  proof cases
    case v4
    then show ?thesis using assms(1,3)
      by (simp add: decodeCandidate_def read_def read_slice_def Let_def record_length_def)
  next
    case v6
    then show ?thesis using assms(1,3)
      by (simp add: decodeCandidate_def read_def read_slice_def Let_def record_length_def
          formatIPv6_eq slice_def)
  next
    case md
    then show ?thesis using assms(1,3)
      by (simp add: decodeCandidate_def read_def read_slice_def Let_def record_length_def)
  qed
qed

lemma record_length_ge: "7 \<le> record_length flags"
  by (simp add: record_length_def)

lemma decodeCandidate_advances:
  assumes "decodeCandidate data offset = Inr (c, n)"
  shows "(n = 7 \<or> n = 19) \<and> offset + n \<le> length data"
  using assms unfolding decodeCandidate_def Let_def
  by (auto split: if_splits sum.splits)

lemma decodeCandidate_in_bounds: "decodeCandidate data offset \<noteq> Inl OutOfBounds"
proof (cases "offset < length data")
  case False
  then show ?thesis by (simp add: decodeCandidate_def)
next
  case True
  show ?thesis
  proof (cases "data ! offset AND 3 = 3")
    case True
    then show ?thesis using decodeCandidate_unknown_family [OF \<open>offset < length data\<close>] by simp
  next
    case False
    show ?thesis
    proof (cases "offset + record_length (data ! offset) \<le> length data")
      case True
      then show ?thesis
        using decodeCandidate_complete [OF \<open>offset < length data\<close> False] by auto
    next
      case False
      then show ?thesis
        using decodeCandidate_truncated [OF \<open>offset < length data\<close> \<open>data ! offset AND 3 \<noteq> 3\<close>]
        by auto
    qed
  qed
qed

lemma record_offset_from_ge: "off \<le> record_offset_from data off k"
proof (induction k arbitrary: off)
  case 0
  show ?case by simp
next
  case (Suc k)
  have "off \<le> off + record_length (data ! off)" by simp
  also have "\<dots> \<le> record_offset_from data (off + record_length (data ! off)) k" by (rule Suc)
  finally show ?case by simp
qed

lemma decode_loop_result:
  "(\<exists>cs. decode_loop data off = Inr cs \<and> \<not> (\<exists>k. faulty_at data (record_offset_from data off k))) \<or>
   (\<exists>f. decode_loop data off = Inl (QWBPDecodeError f) \<and>
        (\<exists>k. faulty_at data (record_offset_from data off k)))"
proof (induction data off rule: decode_loop.induct)
  case (1 data off)
  show ?case
  proof (cases "off < length data")
    case False
    have "\<not> faulty_at data (record_offset_from data off k)" for k
      using False record_offset_from_ge [of off data k] by (simp add: faulty_at_def)
    moreover have "decode_loop data off = Inr []"
      using False by (subst decode_loop.simps) simp
    ultimately show ?thesis by simp
  next
    case True
    note lt = True
    show ?thesis
    proof (cases "faulty_at data off")
      case True
      then have "\<exists>f. decodeCandidate data off = Inl (QWBPDecodeError f)"
        using decodeCandidate_unknown_family [OF lt] decodeCandidate_truncated [OF lt]
        by (auto simp: faulty_at_def)
      then obtain f where "decodeCandidate data off = Inl (QWBPDecodeError f)" by blast
      then have "decode_loop data off = Inl (QWBPDecodeError f)"
        using lt by (subst decode_loop.simps) simp
      moreover have "faulty_at data (record_offset_from data off 0)" using True by simp
      ultimately show ?thesis by blast
    next
      case False
      let ?n = "record_length (data ! off)"
      from False lt have ok: "data ! off AND 3 \<noteq> 3" "off + ?n \<le> length data"
        by (auto simp: faulty_at_def)
      then obtain c where c: "decodeCandidate data off = Inr (c, ?n)"
        using decodeCandidate_complete [OF lt] by blast
      have step: "decode_loop data off =
                    (case decode_loop data (off + ?n) of Inl e \<Rightarrow> Inl e | Inr cs \<Rightarrow> Inr (c # cs))"
        using lt c by (subst decode_loop.simps) simp
      have shift: "(\<exists>k. faulty_at data (record_offset_from data off k)) \<longleftrightarrow>
                   (\<exists>k. faulty_at data (record_offset_from data (off + ?n) k))"
      proof
        assume "\<exists>k. faulty_at data (record_offset_from data off k)"
        then obtain k where k: "faulty_at data (record_offset_from data off k)" by blast
        then have "k \<noteq> 0" using False by (cases k) auto
        then obtain k' where "k = Suc k'" by (cases k) auto
        then show "\<exists>k. faulty_at data (record_offset_from data (off + ?n) k)"
          using k by auto
      next
        assume "\<exists>k. faulty_at data (record_offset_from data (off + ?n) k)"
        then obtain k where "faulty_at data (record_offset_from data (off + ?n) k)" by blast
        then have "faulty_at data (record_offset_from data off (Suc k))" by simp
        then show "\<exists>k. faulty_at data (record_offset_from data off k)" by blast
      qed
      from 1 [OF lt c refl]
      show ?thesis unfolding step shift by auto
    qed
  qed
qed

lemma decode_result:
  "(\<exists>p. decode data = Inr p \<and>
        \<not> (length data < 41 \<or> data ! 0 \<noteq> 0x51 \<or> data ! 1 AND 7 \<noteq> 0 \<or> (\<exists>k. faulty_record data k))) \<or>
   (\<exists>f. decode data = Inl (QWBPDecodeError f) \<and>
        (length data < 41 \<or> data ! 0 \<noteq> 0x51 \<or> data ! 1 AND 7 \<noteq> 0 \<or> (\<exists>k. faulty_record data k)))"
proof (cases "length data < 41")
  case True
  then show ?thesis by (simp add: decode_def constants_defs)
next
  case False
  then have len: "0 < length data" "1 < length data" "34 \<le> length data" by arith+
  show ?thesis
  proof (cases "data ! 0 \<noteq> 0x51")
    case True
    then show ?thesis using False len by (simp add: decode_def constants_defs read_def)
  next
    case magic: False
    show ?thesis
    proof (cases "data ! 1 AND 7 \<noteq> 0")
      case True
      then show ?thesis using False len magic
        by (simp add: decode_def constants_defs read_def Let_def)
    next
      case ver: False
      have d: "decode data =
                 (case decode_loop data 34 of
                    Inl e \<Rightarrow> Inl e
                  | Inr cs \<Rightarrow> Inr \<lparr>version = 0, fingerprint = slice data 2 34, candidates = cs\<rparr>)"
        using False len magic ver
        by (simp add: decode_def constants_defs read_def read_slice_def Let_def
            split: sum.splits)
      show ?thesis
        using decode_loop_result [of data 34] False magic ver
        unfolding d faulty_record_def by auto
    qed
  qed
qed

text \<open>
  C10. \<open>decode\<close> is total: on every byte sequence it returns a packet or throws a decode
  error. No read goes beyond the input (the model would report \<open>OutOfBounds\<close>), neither
  in \<open>decode\<close> nor in \<open>decodeCandidate\<close> at any offset; a record that
  \<open>decodeCandidate\<close> accepts is 7 or 19 bytes long and lies within the input, so each
  accepted record moves the offset of the loop forward by at least 7 bytes, which is what
  the termination proof of \<open>decode_loop\<close> rests on.
\<close>

theorem decode_total:
  "((\<exists>p. decode data = Inr p) \<or> (\<exists>f. decode data = Inl (QWBPDecodeError f))) \<and>
   decode data \<noteq> Inl OutOfBounds \<and>
   decodeCandidate data offset \<noteq> Inl OutOfBounds \<and>
   (\<forall>c n. decodeCandidate data offset = Inr (c, n) \<longrightarrow>
      (n = 7 \<or> n = 19) \<and> offset + 7 \<le> offset + n \<and> offset + n \<le> length data)"
proof -
  have a: "(\<exists>p. decode data = Inr p) \<or> (\<exists>f. decode data = Inl (QWBPDecodeError f))"
    using decode_result [of data] by blast
  then have b: "decode data \<noteq> Inl OutOfBounds" by auto
  have c: "(n = 7 \<or> n = 19) \<and> offset + 7 \<le> offset + n \<and> offset + n \<le> length data"
    if "decodeCandidate data offset = Inr (c, n)" for c n
    using decodeCandidate_advances [OF that] by auto
  show ?thesis using a b c decodeCandidate_in_bounds [of data offset] by blast
qed

lemma decodeCandidate_EXAMPLE_PACKET:
  "decodeCandidate EXAMPLE_PACKET 34 = Inr (EXAMPLE_CANDIDATE, 7)"
  by (simp add: EXAMPLE_PACKET_def EXAMPLE_CANDIDATE_def TEST_FINGERPRINT_def decode_eval)

theorem decode_total_witness:
  "decodeCandidate EXAMPLE_PACKET 34 = Inr (EXAMPLE_CANDIDATE, 7) \<and>
   34 + 7 \<le> length EXAMPLE_PACKET \<and>
   ((\<exists>p. decode EXAMPLE_PACKET = Inr p) \<or> (\<exists>f. decode EXAMPLE_PACKET = Inl (QWBPDecodeError f)))"
  using decode_total [of EXAMPLE_PACKET 34] decodeCandidate_EXAMPLE_PACKET by blast

text \<open>
  C2. \<open>decode\<close> throws a decode error, and returns no packet, exactly when the input is
  shorter than 41 bytes, or byte 0 is not 0x51, or the bits 0 to 2 of byte 1 are not all
  zero, or one of the candidate records is faulty: its address family is 3, or its
  declared length (7 bytes for IPv4, 19 for IPv6 and mDNS) reaches beyond the end of the
  input. On every other input it returns a packet.
\<close>

theorem decode_rejects_iff:
  "((length data < 41 \<or> data ! 0 \<noteq> 0x51 \<or> data ! 1 AND 7 \<noteq> 0 \<or> (\<exists>k. faulty_record data k)) \<longrightarrow>
      (\<exists>f. decode data = Inl (QWBPDecodeError f)) \<and> (\<forall>p. decode data \<noteq> Inr p)) \<and>
   (\<not> (length data < 41 \<or> data ! 0 \<noteq> 0x51 \<or> data ! 1 AND 7 \<noteq> 0 \<or> (\<exists>k. faulty_record data k)) \<longrightarrow>
      (\<exists>p. decode data = Inr p))"
  using decode_result [of data] by auto

lemma EXAMPLE_PACKET_no_faulty_record: "\<not> faulty_record EXAMPLE_PACKET k"
proof (cases k)
  case 0
  then show ?thesis
    by (simp add: faulty_record_def faulty_at_def record_length_def EXAMPLE_PACKET_def
        TEST_FINGERPRINT_def)
next
  case (Suc k')
  have "record_length (EXAMPLE_PACKET ! 34) = 7"
    by (simp add: record_length_def EXAMPLE_PACKET_def TEST_FINGERPRINT_def)
  then have "record_offset_from EXAMPLE_PACKET 34 k = record_offset_from EXAMPLE_PACKET 41 k'"
    using Suc by simp
  moreover have "41 \<le> record_offset_from EXAMPLE_PACKET 41 k'" by (rule record_offset_from_ge)
  moreover have "length EXAMPLE_PACKET = 41" by (simp add: EXAMPLE_PACKET_def TEST_FINGERPRINT_def)
  ultimately show ?thesis by (simp add: faulty_record_def faulty_at_def)
qed

theorem decode_rejects_iff_witness:
  "faulty_record (EXAMPLE_PACKET @ [3]) 1 \<and>
   (\<exists>f. decode (EXAMPLE_PACKET @ [3]) = Inl (QWBPDecodeError f)) \<and>
   \<not> (length EXAMPLE_PACKET < 41 \<or> EXAMPLE_PACKET ! 0 \<noteq> 0x51 \<or> EXAMPLE_PACKET ! 1 AND 7 \<noteq> 0 \<or>
      (\<exists>k. faulty_record EXAMPLE_PACKET k)) \<and>
   (\<exists>p. decode EXAMPLE_PACKET = Inr p)"
proof -
  have f: "faulty_record (EXAMPLE_PACKET @ [3]) 1"
    by (simp add: faulty_record_def faulty_at_def record_length_def EXAMPLE_PACKET_def
        TEST_FINGERPRINT_def)
  then have bad: "\<exists>f. decode (EXAMPLE_PACKET @ [3]) = Inl (QWBPDecodeError f)"
    using decode_rejects_iff [of "EXAMPLE_PACKET @ [3]"] by blast
  have ok: "\<not> (length EXAMPLE_PACKET < 41 \<or> EXAMPLE_PACKET ! 0 \<noteq> 0x51 \<or>
               EXAMPLE_PACKET ! 1 AND 7 \<noteq> 0 \<or> (\<exists>k. faulty_record EXAMPLE_PACKET k))"
    using EXAMPLE_PACKET_no_faulty_record
    by (simp add: EXAMPLE_PACKET_def TEST_FINGERPRINT_def)
  then have "\<exists>p. decode EXAMPLE_PACKET = Inr p"
    using decode_rejects_iff [of EXAMPLE_PACKET] by blast
  then show ?thesis using f bad ok by blast
qed

section \<open>The encoder: the packet it builds and the inputs it rejects\<close>

lemma parseIPv4_octets_result:
  "(\<exists>bs. parseIPv4_octets ps = Inr bs \<and> length bs = length ps \<and>
         (\<forall>p \<in> set ps. \<exists>v. parseInt p 10 = Some v \<and> 0 \<le> v \<and> v \<le> 255)) \<or>
   (parseIPv4_octets ps = Inl (QWBPEncodeError InvalidIPv4Address) \<and>
      \<not> (\<forall>p \<in> set ps. \<exists>v. parseInt p 10 = Some v \<and> 0 \<le> v \<and> v \<le> 255))"
proof (induction ps)
  case Nil
  show ?case by simp
next
  case (Cons p ps)
  show ?case
  proof (cases "parseInt p 10")
    case None
    then show ?thesis by simp
  next
    case (Some v)
    show ?thesis
    proof (cases "v < 0 \<or> v > 255")
      case True
      then show ?thesis using Some by auto
    next
      case False
      then show ?thesis using Some Cons by auto
    qed
  qed
qed

lemma parseIPv4_result:
  "(\<exists>bs. parseIPv4 a = Inr bs \<and> length bs = 4 \<and> length (split a ''.'') = 4 \<and>
         (\<forall>p \<in> set (split a ''.''). \<exists>v. parseInt p 10 = Some v \<and> 0 \<le> v \<and> v \<le> 255)) \<or>
   parseIPv4 a = Inl (QWBPEncodeError InvalidIPv4Address)"
  using parseIPv4_octets_result [of "split a ''.''"]
  by (auto simp: parseIPv4_def Let_def)

lemma parseMapped_octets_result:
  "(\<exists>bs. parseMapped_octets gs = Inr bs \<and> length bs = length gs) \<or>
   parseMapped_octets gs = Inl (QWBPEncodeError InvalidIPv4MappedAddress)"
proof (induction gs)
  case Nil
  show ?case by simp
next
  case (Cons g gs)
  then show ?case by (cases "parseInt g 10") auto
qed

lemma parseIPv6_group_result:
  "(\<exists>h l. parseIPv6_group part = Inr [h, l]) \<or>
   parseIPv6_group part = Inl (QWBPEncodeError InvalidIPv6Address)"
  by (auto simp: parseIPv6_group_def Let_def split: option.splits)

lemma parseIPv6_groups_result:
  "(\<exists>bs. parseIPv6_groups allParts i n = Inr bs \<and> length bs = 2 * n) \<or>
   parseIPv6_groups allParts i n = Inl (QWBPEncodeError InvalidIPv6Address)"
proof (induction n arbitrary: i)
  case 0
  show ?case by simp
next
  case (Suc n)
  show ?case
    using parseIPv6_group_result [of "at allParts i"] Suc [of "i + 1"] by auto
qed

lemma ipv4_mapped_match_length: "ipv4_mapped_match s = Some gs \<Longrightarrow> length gs = 4"
  by (auto simp: ipv4_mapped_match_def Let_def split: if_splits)

lemma parseIPv6_result:
  "(\<exists>bs. parseIPv6 a = Inr bs \<and> length bs = 16) \<or> (\<exists>f. parseIPv6 a = Inl (QWBPEncodeError f))"
proof (cases "isValidIPv6Format (strip_brackets a)")
  case False
  then show ?thesis by (simp add: parseIPv6_def)
next
  case True
  show ?thesis
  proof (cases "ipv4_mapped_match (strip_brackets a)")
    case (Some gs)
    then have "length gs = 4" by (rule ipv4_mapped_match_length)
    then show ?thesis
      using True Some parseMapped_octets_result [of gs] by (auto simp: parseIPv6_def)
  next
    case None
    show ?thesis
      unfolding parseIPv6_def Let_def
      using True None parseIPv6_groups_result [of _ 0 8]
      by (auto simp del: parseIPv6_groups.simps split: if_splits)
  qed
qed

lemma parseMdnsUUID_result:
  "(\<exists>bs. parseMdnsUUID a = Inr bs \<and> length bs = 16 \<and>
         length (remove_dashes (replace_first a ''.local'' [])) = 32) \<or>
   parseMdnsUUID a = Inl (QWBPEncodeError InvalidMdnsUUID)"
  by (simp add: parseMdnsUUID_def Let_def)

lemma parse_address_result:
  "(\<exists>bs. parse_address a = Inr bs \<and> length bs + 3 = (if isMdns a \<or> isIPv6 a then 19 else 7)) \<or>
   (\<exists>f. parse_address a = Inl (QWBPEncodeError f))"
  using parseMdnsUUID_result [of a] parseIPv6_result [of a] parseIPv4_result [of a]
  by (auto simp: parse_address_def)

lemma encodeCandidate_parse_address:
  "encodeCandidate c =
     (case parse_address (ip c) of
        Inl e \<Rightarrow> Inl e
      | Inr addressBytes \<Rightarrow>
          Inr (encode_flags c (if isMdns (ip c) then 2 else if isIPv6 (ip c) then 1 else 0) #
               addressBytes @ [word_of_int (port c div 256), word_of_int (port c)]))"
  by (simp add: encodeCandidate_def parse_address_def Let_def)

lemma encodeCandidate_result:
  "(\<exists>bs. encodeCandidate c = Inr bs \<and> length bs = getCandidateSize c \<and> \<not> isl (parse_address (ip c))) \<or>
   (\<exists>f. encodeCandidate c = Inl (QWBPEncodeError f) \<and> isl (parse_address (ip c)))"
  using parse_address_result [of "ip c"]
  by (auto simp: encodeCandidate_parse_address getCandidateSize_def)

lemma encode_all_result:
  "(\<exists>body. encode_all cs = Inr body \<and> length body = sum_list (map getCandidateSize cs) \<and>
           (\<forall>c \<in> set cs. \<not> isl (parse_address (ip c)))) \<or>
   (\<exists>f. encode_all cs = Inl (QWBPEncodeError f) \<and> (\<exists>c \<in> set cs. isl (parse_address (ip c))))"
proof (induction cs)
  case Nil
  show ?case by simp
next
  case (Cons c cs)
  show ?case using encodeCandidate_result [of c] Cons by auto
qed

lemma encode_loop_eq:
  assumes "length packet = offset + sum_list (map getCandidateSize cs)"
  shows "encode_loop packet offset cs =
           (case encode_all cs of Inl e \<Rightarrow> Inl e | Inr body \<Rightarrow> Inr (take offset packet @ body))"
  using assms
proof (induction cs arbitrary: packet offset)
  case Nil
  then show ?case by simp
next
  case (Cons c cs)
  show ?case
  proof (cases "encodeCandidate c")
    case (Inl e)
    then show ?thesis by simp
  next
    case (Inr bs)
    then have len: "length bs = getCandidateSize c"
      using encodeCandidate_result [of c] by auto
    let ?p = "take offset packet @ bs @ drop (offset + length bs) packet"
    have ts: "typed_set packet bs offset = Inr ?p"
      using Cons.prems len by (simp add: typed_set_def)
    have lp: "length ?p = (offset + length bs) + sum_list (map getCandidateSize cs)"
      using Cons.prems len by simp
    have tk: "take (offset + length bs) ?p = take offset packet @ bs"
      using Cons.prems len by simp
    show ?thesis
      using Inr ts Cons.IH [OF lp] tk by (simp split: sum.splits)
  qed
qed

lemma encode_eq:
  assumes "length fp = 32"
  shows "encode fp cs =
           (case encode_all cs of Inl e \<Rightarrow> Inl e | Inr body \<Rightarrow> Inr ([0x51, 0] @ fp @ body))"
proof -
  let ?n = "sum_list (map getCandidateSize cs)"
  let ?p0 = "(replicate (2 + 32 + ?n) (0 :: byte)) [0 := 0x51, 1 := 0]"
  let ?p1 = "take 2 ?p0 @ fp @ drop (2 + length fp) ?p0"
  have ts: "typed_set ?p0 fp 2 = Inr ?p1"
    using assms by (simp add: typed_set_def)
  have l1: "length ?p1 = (2 + 32) + ?n" using assms by simp
  have "take 2 ?p0 = [0x51, 0]"
    by (simp add: take_Suc_conv_app_nth numeral_2_eq_2)
  then have tk: "take (2 + 32) ?p1 = [0x51, 0] @ fp" using assms by simp
  have "encode fp cs = encode_loop ?p1 (2 + 32) cs"
    using assms ts by (simp add: encode_def constants_defs Let_def)
  also have "\<dots> = (case encode_all cs of Inl e \<Rightarrow> Inl e
                    | Inr body \<Rightarrow> Inr (take (2 + 32) ?p1 @ body))"
    by (rule encode_loop_eq [OF l1])
  finally show ?thesis unfolding tk by (simp split: sum.splits)
qed

section \<open>Splitting and joining\<close>

lemma split_not_Nil: "split s sep \<noteq> []"
  by (induction s sep rule: split.induct) (auto split: list.splits)

lemma split_Cons_no_sep:
  assumes "\<not> (sep \<noteq> [] \<and> take (length sep) (x # xs) = sep)"
  shows "split (x # xs) sep = (x # hd (split xs sep)) # tl (split xs sep)"
  using assms split_not_Nil [of xs sep] by (cases "split xs sep") auto

lemma split_char_append:
  "split (x @ c # y) [c] = split x [c] @ split y [c]"
proof (induction x)
  case Nil
  show ?case by simp
next
  case (Cons a x)
  show ?case
  proof (cases "a = c")
    case True
    then show ?thesis using Cons by simp
  next
    case False
    then show ?thesis using Cons split_not_Nil [of x "[c]"]
      by (cases "split x [c]") auto
  qed
qed

lemma split_char_none: "c \<notin> set x \<Longrightarrow> split x [c] = [x]"
  by (induction x) auto

lemma join_split: "sep \<noteq> [] \<Longrightarrow> join sep (split s sep) = s"
proof (induction s sep rule: split.induct)
  case (1 sep)
  show ?case by simp
next
  case (2 x xs sep)
  show ?case
  proof (cases "take (length sep) (x # xs) = sep")
    case True
    have ne: "split (drop (length sep) (x # xs)) sep \<noteq> []" by (rule split_not_Nil)
    have "join sep ([] # split (drop (length sep) (x # xs)) sep) =
            sep @ join sep (split (drop (length sep) (x # xs)) sep)"
      using ne by (cases "split (drop (length sep) (x # xs)) sep") auto
    also have "\<dots> = sep @ drop (length sep) (x # xs)"
      using 2(1) True 2(3) by simp
    also have "\<dots> = x # xs" using True by (metis append_take_drop_id)
    finally show ?thesis using True 2(3) by simp
  next
    case False
    obtain r rs where rs: "split xs sep = r # rs"
      using split_not_Nil [of xs sep] by (cases "split xs sep") auto
    have "join sep ((x # r) # rs) = x # join sep (r # rs)" by (cases rs) auto
    then show ?thesis using False 2(2) 2(3) rs by simp
  qed
qed

lemma length_split_Cons_no_sep:
  assumes "\<not> (sep \<noteq> [] \<and> take (length sep) (x # xs) = sep)"
  shows "length (split (x # xs) sep) = length (split xs sep)"
  using split_not_Nil [of xs sep] unfolding split_Cons_no_sep [OF assms]
  by (cases "split xs sep") auto

lemma length_split_double_colon: "length (split s ''::'') = Suc (count_double_colon s)"
proof (induction s rule: count_double_colon.induct)
  case (1 x y zs)
  show ?case
  proof (cases "x = CHR '':'' \<and> y = CHR '':''")
    case True
    then have "split (x # y # zs) ''::'' = [] # split zs ''::''" by simp
    then show ?thesis using True 1 by simp
  next
    case False
    then have "\<not> (''::'' \<noteq> [] \<and> take (length ''::'') (x # y # zs) = ''::'')" by auto
    then have "length (split (x # y # zs) ''::'') = length (split (y # zs) ''::'')"
      by (rule length_split_Cons_no_sep)
    then show ?thesis using False 1(2) by (auto simp del: split.simps)
  qed
qed simp_all

lemma ipv6_groups_of_parts:
  assumes "length (split s ''::'') \<le> 2"
  shows "ipv6_groups s =
           (if truthy_part (split s ''::'') 0
            then filter (\<lambda>p. p \<noteq> []) (split (split s ''::'' ! 0) '':'') else []) @
           (if length (split s ''::'') > 1 \<and> truthy_part (split s ''::'') 1
            then filter (\<lambda>p. p \<noteq> []) (split (split s ''::'' ! 1) '':'') else [])"
proof -
  have e: "filter (\<lambda>p. p \<noteq> []) (split x '':'') = []" if "x = []" for x :: string
    using that by simp
  consider (one) l where "split s ''::'' = [l]" | (two) l r where "split s ''::'' = [l, r]"
    using assms split_not_Nil [of s "''::''"]
    by (cases "split s ''::''"; cases "tl (split s ''::'')"; cases "tl (tl (split s ''::''))") auto
  then show ?thesis
  proof cases
    case one
    have "s = l" using join_split [of "''::''" s] one by simp
    then show ?thesis using one e [of l]
      by (auto simp: ipv6_groups_def truthy_part_def at_def simp del: split.simps)
  next
    case two
    have s: "s = l @ CHR '':'' # (CHR '':'' # r)" using join_split [of "''::''" s] two by simp
    have "split s '':'' = split l '':'' @ [] # split r '':''"
      unfolding s split_char_append by simp
    then show ?thesis using two e [of l] e [of r]
      by (auto simp: ipv6_groups_def truthy_part_def at_def simp del: split.simps)
  qed
qed

lemma parseIPv6_Inr_shape:
  assumes "parseIPv6 a = Inr bs"
  shows "ipv4_mapped_match (strip_brackets a) \<noteq> None \<or>
         (count_double_colon (strip_brackets a) \<le> 1 \<and> length (ipv6_groups (strip_brackets a)) \<le> 8)"
proof (cases "ipv4_mapped_match (strip_brackets a)")
  case (Some gs)
  then show ?thesis by simp
next
  case None
  let ?parts = "split (strip_brackets a) ''::''"
  have len: "length ?parts \<le> 2"
    using assms None unfolding parseIPv6_def Let_def
    by (auto split: if_splits simp del: split.simps parseIPv6_groups.simps)
  then have cnt: "count_double_colon (strip_brackets a) \<le> 1"
    using length_split_double_colon [of "strip_brackets a"] by simp
  have "length (ipv6_groups (strip_brackets a)) \<le> 8"
    unfolding ipv6_groups_of_parts [OF len]
    using assms None len unfolding parseIPv6_def Let_def
    by (auto split: if_splits simp del: split.simps parseIPv6_groups.simps)
  then show ?thesis using cnt by simp
qed

lemma parseIPv6_groups_8:
  "parseIPv6_groups ps i 8 = parseIPv6_groups ps i (Suc (Suc (Suc (Suc (Suc (Suc (Suc (Suc 0))))))))"
  by (simp add: eval_nat_numeral)

lemma replicate_numeral: "replicate (numeral k) x = x # replicate (pred_numeral k) x"
  by (simp add: numeral_eq_Suc)

lemma upt_0_16: "[0..<16] = [0, 1, 2, 3, 4, 5, 6, 7, 8, 9, 10, 11, 12, 13, 14, 15]"
  by (simp add: upt_rec)

lemmas parse_eval = parse_address_def isMdns_def isIPv6_def endsWith_def
  str_includes_def parseIPv6_def isValidIPv6Format_def strip_brackets_def startsWith_def
  ipv4_mapped_match_def Let_def is_hex_digit_def truthy_part_def at_def parseIPv6_group_def
  parseInt_def is_radix_digit_def digit_val_def digits_value_def is_whitespace_def
  parseIPv4_def parseMdnsUUID_def remove_dashes_def slice_def to_uint8_def is_dec_digit_def
  parseIPv6_groups_8 replicate_numeral upt_0_16

section \<open>Numbers and their text\<close>

lemma less_16_cases:
  assumes "d < (16 :: nat)"
  shows "d = 0 \<or> d = 1 \<or> d = 2 \<or> d = 3 \<or> d = 4 \<or> d = 5 \<or> d = 6 \<or> d = 7 \<or> d = 8 \<or> d = 9 \<or>
         d = 10 \<or> d = 11 \<or> d = 12 \<or> d = 13 \<or> d = 14 \<or> d = 15"
  using assms by arith

lemma digit_char_facts:
  assumes "d < 16"
  shows "digit_val (digit_char d) = Some d" and "lower_hex (digit_char d)"
    and "digit_char d = CHR ''0'' \<longleftrightarrow> d = 0"
  using less_16_cases [OF assms]
  by (elim disjE; simp add: digit_char_def digit_val_def lower_hex_def)+

lemma lower_hex_facts:
  assumes "lower_hex c"
  shows "\<not> is_whitespace c" and "c \<noteq> CHR ''-''" and "c \<noteq> CHR ''+''" and "c \<noteq> CHR '':''"
    and "c \<noteq> CHR ''.''" and "c \<noteq> CHR ''x''" and "c \<noteq> CHR ''X''" and "c \<noteq> CHR ''l''"
    and "c \<noteq> CHR ''[''" and "c \<noteq> CHR '']''" and "is_hex_digit c" and "is_radix_digit 16 c"
  using assms
  by (auto simp: lower_hex_def is_whitespace_def is_hex_digit_def is_radix_digit_def digit_val_def)

lemma dec_digit_lower_hex: "is_dec_digit c \<Longrightarrow> lower_hex c"
  by (auto simp: is_dec_digit_def lower_hex_def)

lemma dec_digit_radix: "is_dec_digit c \<Longrightarrow> is_radix_digit 10 c"
  by (auto simp: is_dec_digit_def is_radix_digit_def digit_val_def)

lemma toString_not_Nil: "toString n r \<noteq> []"
  by (subst toString.simps) simp

lemma toString_chars:
  assumes "2 \<le> r"
  shows "\<forall>c \<in> set (toString n r). \<exists>d<r. c = digit_char d"
  using assms
proof (induction n r rule: toString.induct)
  case (1 n r)
  show ?case
  proof (cases "n < r")
    case True
    then show ?thesis by (subst toString.simps) auto
  next
    case False
    have "n mod r < r" using 1(2) by simp
    then have "\<exists>d<r. digit_char (n mod r) = digit_char d" by blast
    then show ?thesis using False 1
      by (subst toString.simps) auto
  qed
qed

lemma toString_hex_chars: "\<forall>c \<in> set (toString n 16). lower_hex c"
  using toString_chars [of 16 n] digit_char_facts(2) by auto

lemma digits_value_snoc:
  "digits_value r (s @ [c]) = digits_value r s * r + the (digit_val c)"
  by (simp add: digits_value_def)

lemma digits_value_toString:
  assumes "2 \<le> r" "r \<le> 16"
  shows "digits_value r (toString n r) = n"
  using assms
proof (induction n r rule: toString.induct)
  case (1 n r)
  show ?case
  proof (cases "n < r")
    case True
    then have "n < 16" using 1(3) by simp
    then show ?thesis using True
      by (subst toString.simps) (simp add: digits_value_def digit_char_facts(1))
  next
    case False
    have "n mod r < r" using 1(2) by simp
    then have "n mod r < 16" using 1(3) by simp
    then have "the (digit_val (digit_char (n mod r))) = n mod r"
      by (simp add: digit_char_facts(1))
    moreover have "digits_value r (toString (n div r) r) = n div r"
      using 1 False by simp
    ultimately show ?thesis using False 1(2)
      by (subst toString.simps) (simp add: digits_value_snoc)
  qed
qed

lemma toString_hd_zero:
  assumes "2 \<le> r" "r \<le> 16" "n \<noteq> 0"
  shows "hd (toString n r) \<noteq> CHR ''0''"
  using assms
proof (induction n r rule: toString.induct)
  case (1 n r)
  show ?case
  proof (cases "n < r")
    case True
    then have "n < 16" using 1(3) by simp
    then show ?thesis using True 1(4)
      by (subst toString.simps) (simp add: digit_char_facts(3))
  next
    case False
    then have "n div r \<noteq> 0" using 1(2) by (simp add: div_eq_0_iff)
    then have "hd (toString (n div r) r) \<noteq> CHR ''0''" using 1 False by simp
    then show ?thesis using False 1(2) toString_not_Nil [of "n div r" r]
      by (subst toString.simps) simp
  qed
qed

lemma toString_zero: "toString 0 r = ''0''"
  by (subst toString.simps) (auto simp: digit_char_def)

text \<open>\<open>parseInt\<close> on a text of digits with no sign, space or prefix.\<close>

lemma parseInt_digits:
  assumes "s \<noteq> []" and "\<forall>c \<in> set s. lower_hex c \<and> is_radix_digit r c"
  shows "parseInt s r = Some (int (digits_value r s))"
proof -
  obtain c t where s: "s = c # t" using assms(1) by (cases s) auto
  have c: "lower_hex c" using assms(2) s by simp
  have ws: "dropWhile is_whitespace s = s" using s lower_hex_facts(1) [OF c] by simp
  have sg: "\<not> startsWith s ''-''" "\<not> startsWith s ''+''"
    using s lower_hex_facts(2,3) [OF c] by (simp_all add: startsWith_def)
  have px: "\<not> startsWith s ''0x'' \<and> \<not> startsWith s ''0X''"
  proof (cases t)
    case Nil
    then show ?thesis using s by (simp add: startsWith_def)
  next
    case (Cons d u)
    then have d: "lower_hex d" using assms(2) s by simp
    show ?thesis using s Cons lower_hex_facts(6,7) [OF d] by (simp add: startsWith_def)
  qed
  have tw: "takeWhile (is_radix_digit r) s = s" using assms(2) by (simp add: takeWhile_eq_all_conv)
  show ?thesis
    using assms(1) by (simp add: parseInt_def Let_def ws sg px tw)
qed

lemma parseInt_toString_10: "parseInt (toString n 10) 10 = Some (int n)"
proof -
  have "\<forall>c \<in> set (toString n 10). lower_hex c \<and> is_radix_digit 10 c"
    using toString_dec_digits [of n] dec_digit_lower_hex dec_digit_radix by auto
  then show ?thesis
    using parseInt_digits [OF toString_not_Nil, of n 10 10] by (simp add: digits_value_toString)
qed

lemma parseInt_toString_16: "parseInt (toString n 16) 16 = Some (int n)"
proof -
  have "\<forall>c \<in> set (toString n 16). lower_hex c \<and> is_radix_digit 16 c"
    using toString_hex_chars [of n] lower_hex_facts(12) by auto
  then show ?thesis
    using parseInt_digits [OF toString_not_Nil, of n 16 16] by (simp add: digits_value_toString)
qed

section \<open>Addresses the decoder writes are canonical: IPv4 and mDNS\<close>

lemma split_join_char:
  assumes "ps \<noteq> []" and "\<forall>p \<in> set ps. c \<notin> set p"
  shows "split (join [c] ps) [c] = ps"
  using assms
proof (induction ps rule: list_nonempty_induct)
  case (single p)
  then show ?case by (simp add: split_char_none)
next
  case (cons p ps)
  obtain q qs where q: "ps = q # qs" using cons(1) by (cases ps) auto
  have "split (join [c] (p # ps)) [c] = split (p @ c # join [c] ps) [c]"
    using q by simp
  also have "\<dots> = split p [c] @ split (join [c] ps) [c]" by (rule split_char_append)
  also have "\<dots> = p # ps" using cons by (simp add: split_char_none)
  finally show ?case .
qed

lemma set_join: "set (join sep ps) \<subseteq> set sep \<union> \<Union> (set ` set ps)"
  by (induction sep ps rule: join.induct) auto

lemma endsWith_set: "endsWith s t \<Longrightarrow> set t \<subseteq> set s"
  unfolding endsWith_def by (metis set_drop_subset)

lemma toString_10_chars: "c \<in> set (toString n 10) \<Longrightarrow> lower_hex c"
  using toString_dec_digits [of n] dec_digit_lower_hex by blast

lemma formatIPv4_chars:
  assumes "c \<in> set (formatIPv4 bs)"
  shows "lower_hex c \<or> c = CHR ''.''"
  using assms set_join [of "''.''" "map (\<lambda>b. toString (unat b) 10) bs"] toString_10_chars
  unfolding formatIPv4_def by auto

lemma formatIPv4_family: "\<not> isMdns (formatIPv4 bs)" "\<not> isIPv6 (formatIPv4 bs)"
proof -
  have l: "CHR ''l'' \<notin> set (formatIPv4 bs)"
    using formatIPv4_chars [of "CHR ''l''" bs] lower_hex_facts(8) by auto
  show "\<not> isMdns (formatIPv4 bs)"
  proof
    assume "isMdns (formatIPv4 bs)"
    then have "set ''.local'' \<subseteq> set (formatIPv4 bs)"
      unfolding isMdns_def by (rule endsWith_set)
    then show False using l by simp
  qed
  show "\<not> isIPv6 (formatIPv4 bs)"
    using formatIPv4_chars [of "CHR '':''" bs] lower_hex_facts(4)
    by (auto simp: isIPv6_def str_includes_def)
qed

lemma word_of_int_unat: "word_of_int (int (unat (b :: byte))) = b"
  by simp

lemma parseIPv4_octets_toString:
  "parseIPv4_octets (map (\<lambda>b. toString (unat b) 10) bs) = Inr bs"
proof (induction bs)
  case Nil
  show ?case by simp
next
  case (Cons b bs)
  have "uint b < 2 ^ 8" using uint_bounded [of b] by simp
  then have "uint b \<le> 255" by simp
  then show ?case using Cons by (simp add: parseInt_toString_10)
qed

lemma parseIPv4_formatIPv4:
  assumes "length bs = 4"
  shows "parseIPv4 (formatIPv4 bs) = Inr bs"
proof -
  let ?ps = "map (\<lambda>b. toString (unat b) 10) bs"
  have ne: "?ps \<noteq> []" using assms by auto
  have "\<forall>p \<in> set ?ps. CHR ''.'' \<notin> set p"
    using toString_10_chars lower_hex_facts(5) by auto
  then have "split (formatIPv4 bs) ''.'' = ?ps"
    unfolding formatIPv4_def using split_join_char [OF ne] by simp
  then show ?thesis using assms by (simp add: parseIPv4_def parseIPv4_octets_toString)
qed

lemma canonical_formatIPv4:
  assumes "length bs = 4"
  shows "canonical_address (formatIPv4 bs)"
  using parseIPv4_formatIPv4 [OF assms] formatIPv4_family [of bs]
  by (simp add: canonical_address_def parse_address_def format_address_def)

text \<open>Two hexadecimal digits for a byte.\<close>

lemma hex2_facts:
  fixes b :: byte
  defines "h \<equiv> padStart (toString (unat b) 16) 2 CHR ''0''"
  shows "length h = 2" and "\<forall>c \<in> set h. lower_hex c" and "parseInt h 16 = Some (int (unat b))"
proof -
  let ?t = "toString (unat b) 16"
  have "unat b < 16 ^ 2" using unat_byte_less [of b] by simp
  then have le: "length ?t \<le> 2" by (intro toString_length_le) simp_all
  have ne: "?t \<noteq> []" by (rule toString_not_Nil)
  have z: "lower_hex CHR ''0''" by (simp add: lower_hex_def)
  show len: "length h = 2" using le by (simp add: h_def padStart_def)
  show ch: "\<forall>c \<in> set h. lower_hex c"
    using toString_hex_chars [of "unat b"] z by (auto simp: h_def padStart_def)
  have "digits_value 16 (replicate k CHR ''0'' @ ?t) = digits_value 16 ?t" for k
    by (induction k) (simp_all add: digits_value_def digit_val_def)
  then have dv: "digits_value 16 h = unat b"
    by (simp add: h_def padStart_def digits_value_toString)
  have "h \<noteq> []" using len by auto
  moreover have "\<forall>c \<in> set h. lower_hex c \<and> is_radix_digit 16 c"
    using ch lower_hex_facts(12) by auto
  ultimately show "parseInt h 16 = Some (int (unat b))"
    using parseInt_digits [of h 16] dv by simp
qed

lemma slice_concat_pairs:
  assumes "\<forall>b. length (f b) = 2" and "i < length bs"
  shows "slice (concat (map f bs)) (i * 2) (i * 2 + 2) = f (bs ! i)"
  using assms(2)
proof (induction bs arbitrary: i)
  case Nil
  then show ?case by simp
next
  case (Cons b bs)
  show ?case
  proof (cases i)
    case 0
    then show ?thesis using assms(1) by (simp add: slice_def)
  next
    case (Suc j)
    then have "j < length bs" using Cons(2) by simp
    then have "slice (concat (map f bs)) (j * 2) (j * 2 + 2) = f (bs ! j)" by (rule Cons(1))
    then show ?thesis using Suc assms(1) by (simp add: slice_def)
  qed
qed

lemma length_concat_pairs:
  assumes "\<forall>b. length (f b) = 2"
  shows "length (concat (map f bs)) = 2 * length bs"
  using assms by (induction bs) simp_all

lemma replace_first_Cons_neq:
  assumes "a \<noteq> c"
  shows "replace_first (a # xs) (c # t) r = a # replace_first xs (c # t) r"
  using assms by simp

lemma replace_first_suffix:
  assumes "c \<notin> set x"
  shows "replace_first (x @ c # t) (c # t) r = x @ r"
  using assms
proof (induction x)
  case Nil
  show ?case by simp
next
  case (Cons a x)
  then have "a \<noteq> c" and ih: "replace_first (x @ c # t) (c # t) r = x @ r" by auto
  have "replace_first ((a # x) @ c # t) (c # t) r = a # replace_first (x @ c # t) (c # t) r"
    using replace_first_Cons_neq [OF \<open>a \<noteq> c\<close>, of "x @ c # t" t r]
    by (simp del: replace_first.simps)
  then show ?case by (simp only: ih append_Cons)
qed

lemma parseMdnsUUID_formatMdns:
  assumes "length bs = 16"
  shows "parseMdnsUUID (formatMdns bs) = Inr bs" and "isMdns (formatMdns bs)"
proof -
  let ?f = "\<lambda>b :: byte. padStart (toString (unat b) 16) 2 CHR ''0''"
  define hex where "hex = concat (map ?f bs)"
  define x where "x = slice hex 0 8 @ ''-'' @ slice hex 8 12 @ ''-'' @ slice hex 12 16 @ ''-'' @
            slice hex 16 20 @ ''-'' @ slice hex 20 32"
  have f2: "\<forall>b. length (?f b) = 2" using hex2_facts(1) by simp
  have len: "length hex = 32" using length_concat_pairs [OF f2, of bs] assms by (simp add: hex_def)
  have ch: "\<forall>c \<in> set hex. lower_hex c" using hex2_facts(2) by (auto simp: hex_def)
  have fm: "formatMdns bs = x @ CHR ''.'' # ''local''"
    by (simp add: formatMdns_def Let_def x_def hex_def)
  have whole: "slice hex 0 8 @ slice hex 8 12 @ slice hex 12 16 @ slice hex 16 20 @
               slice hex 20 32 = hex"
  proof -
    have t12: "take 12 hex = take 8 hex @ take 4 (drop 8 hex)"
      using take_add [of 8 4 hex] by simp
    have t16: "take 16 hex = take 12 hex @ take 4 (drop 12 hex)"
      using take_add [of 12 4 hex] by simp
    have t20: "take 20 hex = take 16 hex @ take 4 (drop 16 hex)"
      using take_add [of 16 4 hex] by simp
    have t32: "take 32 hex = take 20 hex @ take 12 (drop 20 hex)"
      using take_add [of 20 12 hex] by simp
    have "take 32 hex = hex" using len by simp
    then have "take 8 hex @ take 4 (drop 8 hex) @ take 4 (drop 12 hex) @
               take 4 (drop 16 hex) @ take 12 (drop 20 hex) = hex"
      unfolding t32 t20 t16 t12 by simp
    then show ?thesis by (simp add: slice_def)
  qed
  have sub: "set (slice hex i j) \<subseteq> set hex" for i j
    unfolding slice_def by (meson set_drop_subset set_take_subset subset_trans)
  have hs: "\<forall>c \<in> set (slice hex i j). lower_hex c" for i j
    using ch sub [of i j] by blast
  have xch: "\<forall>c \<in> set x. lower_hex c \<or> c = CHR ''-''"
    using hs by (auto simp: x_def)
  then have nodot: "CHR ''.'' \<notin> set x" using lower_hex_facts(5) by auto
  have rf: "replace_first (formatMdns bs) ''.local'' [] = x"
    unfolding fm using replace_first_suffix [OF nodot, of "''local''" "[]"] by simp
  have nd: "filter (\<lambda>c. c \<noteq> CHR ''-'') (slice hex i j) = slice hex i j" for i j
    using hs [of i j] lower_hex_facts(2) by (auto simp: filter_id_conv)
  have uuid: "remove_dashes x = hex"
    using whole by (simp add: remove_dashes_def nd x_def)
  have "map (\<lambda>i. to_uint8 (parseInt (slice hex (i * 2) (i * 2 + 2)) 16)) [0..<16] = bs"
  proof (rule nth_equalityI)
    show "length (map (\<lambda>i. to_uint8 (parseInt (slice hex (i * 2) (i * 2 + 2)) 16)) [0..<16]) =
          length bs" using assms by simp
  next
    fix i
    assume "i < length (map (\<lambda>i. to_uint8 (parseInt (slice hex (i * 2) (i * 2 + 2)) 16)) [0..<16])"
    then have i: "i < length bs" using assms by simp
    then have "slice hex (i * 2) (i * 2 + 2) = ?f (bs ! i)"
      unfolding hex_def using slice_concat_pairs [OF f2] by blast
    then have "to_uint8 (parseInt (slice hex (i * 2) (i * 2 + 2)) 16) = bs ! i"
      using hex2_facts(3) [of "bs ! i"] by (simp add: to_uint8_def)
    then show "map (\<lambda>i. to_uint8 (parseInt (slice hex (i * 2) (i * 2 + 2)) 16)) [0..<16] ! i =
               bs ! i"
      using i assms by simp
  qed
  then show "parseMdnsUUID (formatMdns bs) = Inr bs"
    using len by (simp add: parseMdnsUUID_def Let_def rf uuid)
  show "isMdns (formatMdns bs)"
    unfolding fm isMdns_def endsWith_def by simp
qed

lemma canonical_formatMdns:
  assumes "length bs = 16"
  shows "canonical_address (formatMdns bs)"
  using parseMdnsUUID_formatMdns [OF assms]
  by (simp add: canonical_address_def parse_address_def format_address_def)

section \<open>Decoding what was encoded\<close>

lemma push_bit_or_add_int:
  assumes "0 \<le> y" "y < 256"
  shows "push_bit 8 (x::int) OR y = x * 256 + y"
proof -
  have "push_bit 8 x + y = push_bit 8 x OR y"
  proof (rule disjunctive_add)
    fix n
    show "\<not> bit (push_bit 8 x) n \<or> \<not> bit y n"
    proof (cases "n < 8")
      case True
      then show ?thesis by (simp add: bit_push_bit_iff)
    next
      case False
      then have "(2::int) ^ 8 \<le> 2 ^ n" by (intro power_increasing) simp_all
      then have "y < 2 ^ n" using assms by simp
      then have "\<not> bit y n" using assms(1) by (simp add: bit_iff_odd)
      then show ?thesis by simp
    qed
  qed
  then show ?thesis by (simp add: push_bit_eq_mult)
qed

lemma encode_flags_fields:
  assumes "af = 0 \<or> af = 1 \<or> af = 2"
  shows "encode_flags c af AND 3 = af"
    and "drop_bit 2 (encode_flags c af) AND 1 = (if protocol c = Tcp then 1 else 0)"
    and "drop_bit 3 (encode_flags c af) AND 1 = (if type c = Srflx then 1 else 0)"
    and "protocol c = Tcp \<Longrightarrow> tcpType c = Some t \<Longrightarrow>
           decode_tcpType (drop_bit 4 (encode_flags c af) AND 3) = t"
  using assms
  by (cases "protocol c"; cases "type c"; cases "tcpType c"; cases t;
      auto simp: encode_flags_def decode_tcpType_def split: tcp_type.splits)+

lemma port_bytes:
  assumes "0 \<le> p" "p < 65536"
  shows "push_bit 8 (uint (word_of_int (p div 256) :: byte)) OR uint (word_of_int p :: byte) = p"
proof -
  have h: "uint (word_of_int (p div 256) :: byte) = p div 256"
    using assms by (simp add: uint_word_of_int take_bit_eq_mod)
  have l: "uint (word_of_int p :: byte) = p mod 256"
    by (simp add: uint_word_of_int take_bit_eq_mod)
  have "push_bit 8 (p div 256) OR (p mod 256) = (p div 256) * 256 + p mod 256"
    by (rule push_bit_or_add_int) simp_all
  then show ?thesis unfolding h l by simp
qed

text \<open>
  The record of a candidate off the wire, placed anywhere in a byte sequence, is decoded
  to that candidate.
\<close>

lemma decodeCandidate_encodeCandidate:
  assumes "wire_candidate c"
  shows "\<exists>r. encodeCandidate c = Inr r \<and> 7 \<le> length r \<and>
             (\<forall>pre post. decodeCandidate (pre @ r @ post) (length pre) = Inr (c, length r))"
proof -
  from assms have can: "canonical_address (ip c)" and p: "1 \<le> port c" "port c \<le> 65535"
    and tt: "tcpType c = None \<longleftrightarrow> protocol c = Udp"
    by (simp_all add: wire_candidate_def)
  from can obtain bs where bs: "parse_address (ip c) = Inr bs"
    and fmt: "format_address (ip c) bs = Inr (ip c)"
    by (auto simp: canonical_address_def split: sum.splits)
  define af :: byte where "af = (if isMdns (ip c) then 2 else if isIPv6 (ip c) then 1 else 0)"
  define hi :: byte where "hi = word_of_int (port c div 256)"
  define lo :: byte where "lo = word_of_int (port c)"
  define fl where "fl = encode_flags c af"
  define r where "r = fl # bs @ [hi, lo]"
  have len: "length bs = (if af = 0 then 4 else 16)"
    using parse_address_result [of "ip c"] bs by (auto simp: af_def)
  have afc: "af = 0 \<or> af = 1 \<or> af = 2" by (simp add: af_def)
  have enc: "encodeCandidate c = Inr r"
    by (simp add: encodeCandidate_parse_address bs r_def fl_def af_def hi_def lo_def)
  have shown: "(if af = 0 then Inr (formatIPv4 bs) else if af = 1 then formatIPv6 bs
               else Inr (formatMdns bs)) = Inr (ip c)"
    using fmt by (auto simp: format_address_def af_def)
  have port: "push_bit 8 (uint hi) OR uint lo = port c"
    unfolding hi_def lo_def using p by (intro port_bytes) simp_all
  have f1: "fl AND 3 = af" unfolding fl_def by (rule encode_flags_fields(1) [OF afc])
  have f2: "drop_bit 2 fl AND 1 = (if protocol c = Tcp then 1 else 0)"
    unfolding fl_def by (rule encode_flags_fields(2) [OF afc])
  have f3: "drop_bit 3 fl AND 1 = (if type c = Srflx then 1 else 0)"
    unfolding fl_def by (rule encode_flags_fields(3) [OF afc])
  have f4: "decode_tcpType (drop_bit 4 fl AND 3) = t" if "protocol c = Tcp" "tcpType c = Some t" for t
    unfolding fl_def using that by (rule encode_flags_fields(4) [OF afc])
  have ty: "(if type c = Srflx then Srflx else Host) = type c" by (cases "type c") simp_all
  have pr: "(if protocol c = Tcp then Tcp else Udp) = protocol c" by (cases "protocol c") simp_all
  have tc: "(if protocol c = Tcp then Some (decode_tcpType (drop_bit 4 fl AND 3)) else None) =
            tcpType c"
  proof (cases "protocol c")
    case Udp
    then show ?thesis using tt by simp
  next
    case Tcp
    then obtain t where t: "tcpType c = Some t" using tt by (cases "tcpType c") auto
    then show ?thesis using Tcp f4 [OF Tcp t] by simp
  qed
  have dec: "decodeCandidate (pre @ r @ post) (length pre) = Inr (c, length r)" for pre post
  proof -
    let ?d = "pre @ r @ post" and ?o = "length pre"
    have rd0: "read ?d ?o = Inr fl" by (simp add: read_def r_def)
    have sl: "read_slice ?d (?o + 1) (?o + 1 + length bs) = Inr bs"
      by (simp add: read_slice_def slice_def r_def)
    have rd1: "read ?d (?o + 1 + length bs) = Inr hi"
      by (simp add: read_def r_def nth_append)
    have rd2: "read ?d (?o + 1 + length bs + 1) = Inr lo"
      by (simp add: read_def r_def nth_append)
    have bound: "\<not> ?o + 1 + length bs + 2 > length ?d" by (simp add: r_def)
    have lt: "\<not> ?o \<ge> length ?d" by (simp add: r_def)
    have a: "(drop_bit 3 fl AND 1 = 1) = (type c = Srflx)" by (simp add: f3)
    have b: "(drop_bit 2 fl AND 1 = 1) = (protocol c = Tcp)" by (simp add: f2)
    have rec: "\<lparr>ip = ip c, port = push_bit 8 (uint hi) OR uint lo,
                type = (if drop_bit 3 fl AND 1 = 1 then Srflx else Host),
                protocol = (if drop_bit 2 fl AND 1 = 1 then Tcp else Udp),
                tcpType = (if drop_bit 2 fl AND 1 = 1
                           then Some (decode_tcpType (drop_bit 4 fl AND 3)) else None)\<rparr> = c"
      unfolding a b ty pr tc port by (cases c) simp
    consider (v4) "af = 0" | (v6) "af = 1" | (md) "af = 2" using afc by blast
    then show ?thesis
    proof cases
      case v4
      then have l4: "length bs = 4" using len by simp
      have "formatIPv4 bs = ip c" using shown v4 by simp
      then show ?thesis
        using rd0 sl rd1 rd2 bound lt
        unfolding l4
        by (simp add: decodeCandidate_def Let_def f1 v4 rec r_def l4)
    next
      case v6
      then have l16: "length bs = 16" using len by simp
      have "formatIPv6 bs = Inr (ip c)" using shown v6 by simp
      then show ?thesis
        using rd0 sl rd1 rd2 bound lt
        unfolding l16
        by (simp add: decodeCandidate_def Let_def f1 v6 rec r_def l16)
    next
      case md
      then have l16: "length bs = 16" using len by simp
      have "formatMdns bs = ip c" using shown md by simp
      then show ?thesis
        using rd0 sl rd1 rd2 bound lt
        unfolding l16
        by (simp add: decodeCandidate_def Let_def f1 md rec r_def l16)
    qed
  qed
  have "7 \<le> length r" using len by (simp add: r_def)
  then show ?thesis using enc dec by blast
qed

lemma decode_loop_encode_all:
  assumes "\<forall>c \<in> set cs. wire_candidate c"
  shows "\<exists>body. encode_all cs = Inr body \<and> 7 * length cs \<le> length body \<and>
           (\<forall>pre. decode_loop (pre @ body) (length pre) = Inr cs)"
  using assms
proof (induction cs)
  case Nil
  have "decode_loop pre (length pre) = Inr []" for pre :: "byte list"
    by (subst decode_loop.simps) simp
  then show ?case by simp
next
  case (Cons c cs)
  then obtain body where body: "encode_all cs = Inr body" "7 * length cs \<le> length body"
    "\<forall>pre. decode_loop (pre @ body) (length pre) = Inr cs" by auto
  from Cons(2) have "wire_candidate c" by simp
  then obtain r where r: "encodeCandidate c = Inr r" "7 \<le> length r"
    "\<forall>pre post. decodeCandidate (pre @ r @ post) (length pre) = Inr (c, length r)"
    using decodeCandidate_encodeCandidate by blast
  have "decode_loop (pre @ r @ body) (length pre) = Inr (c # cs)" for pre
  proof -
    have "0 < length r" using r(2) by arith
    then have lt: "length pre < length (pre @ r @ body)" by simp
    have nx: "decode_loop (pre @ r @ body) (length pre + length r) = Inr cs"
      using body(3) [rule_format, of "pre @ r"] by simp
    show ?thesis
      using lt r(3) [rule_format, of pre body] nx
      by (subst decode_loop.simps) simp
  qed
  then show ?case using body(1,2) r(1,2) by simp
qed

text \<open>
  C1, as the code has it. For a 32-byte fingerprint and a non-empty list of candidates
  off the wire (canonical address text, port from 1 to 65535, tcp subtype exactly for
  tcp), \<open>encode\<close> returns a byte sequence that \<open>decode\<close> turns into the packet with
  version 0, that fingerprint and that list of candidates, in the same order.
\<close>

theorem decode_encode_roundtrip:
  assumes "length fp = 32" and "cs \<noteq> []" and "\<forall>c \<in> set cs. wire_candidate c"
  shows "\<exists>bytes. encode fp cs = Inr bytes \<and>
           decode bytes = Inr \<lparr>version = 0, fingerprint = fp, candidates = cs\<rparr>"
proof -
  obtain body where body: "encode_all cs = Inr body" "7 * length cs \<le> length body"
    "\<forall>pre. decode_loop (pre @ body) (length pre) = Inr cs"
    using decode_loop_encode_all [OF assms(3)] by blast
  let ?bytes = "[0x51, 0] @ fp @ body"
  have enc: "encode fp cs = Inr ?bytes" using body(1) by (simp add: encode_eq [OF assms(1)])
  have "0 < length cs" using assms(2) by simp
  then have l7: "7 \<le> length body" using body(2) by arith
  have loop: "decode_loop ?bytes 34 = Inr cs"
    using body(3) [rule_format, of "[0x51, 0] @ fp"] assms(1) by simp
  have fpr: "slice ?bytes 2 34 = fp" using assms(1) by (simp add: slice_def)
  have "decode ?bytes = Inr \<lparr>version = 0, fingerprint = fp, candidates = cs\<rparr>"
    using l7 assms(1) loop fpr
    by (simp add: decode_def constants_defs read_def read_slice_def Let_def)
  then show ?thesis using enc by blast
qed

lemmas format_eval = canonical_address_def format_address_def formatIPv4_def formatIPv6_def
  formatMdns_def ipv6_parts.simps read_def compress_zero_runs_def zero_run_matches.simps
  match_at_def body_match_def longest_run_def padStart_def toString.simps digit_char_def

lemmas encode_eval = encode_def encode_loop.simps encodeCandidate_def encode_flags_def
  typed_set_def getCandidateSize_def constants_defs

theorem decode_encode_roundtrip_witness:
  "length TEST_FINGERPRINT = 32 \<and>
   wire_candidate
     \<lparr>ip = ''192.168.1.5'', port = 54321, type = Host, protocol = Udp, tcpType = None\<rparr> \<and>
   wire_candidate
     \<lparr>ip = ''2001:db8::ff00:42:8329'', port = 443, type = Srflx, protocol = Tcp,
      tcpType = Some So\<rparr> \<and>
   wire_candidate
     \<lparr>ip = ''b124d656-dba0-4a1c-8f3b-1a2b3c4d5e6f.local'', port = 9, type = Host,
      protocol = Tcp, tcpType = Some Active\<rparr> \<and>
   (\<exists>bytes. encode TEST_FINGERPRINT
       [\<lparr>ip = ''192.168.1.5'', port = 54321, type = Host, protocol = Udp, tcpType = None\<rparr>,
        \<lparr>ip = ''2001:db8::ff00:42:8329'', port = 443, type = Srflx, protocol = Tcp,
         tcpType = Some So\<rparr>,
        \<lparr>ip = ''b124d656-dba0-4a1c-8f3b-1a2b3c4d5e6f.local'', port = 9, type = Host,
         protocol = Tcp, tcpType = Some Active\<rparr>] = Inr bytes \<and>
      decode bytes = Inr \<lparr>version = 0, fingerprint = TEST_FINGERPRINT, candidates =
       [\<lparr>ip = ''192.168.1.5'', port = 54321, type = Host, protocol = Udp, tcpType = None\<rparr>,
        \<lparr>ip = ''2001:db8::ff00:42:8329'', port = 443, type = Srflx, protocol = Tcp,
         tcpType = Some So\<rparr>,
        \<lparr>ip = ''b124d656-dba0-4a1c-8f3b-1a2b3c4d5e6f.local'', port = 9, type = Host,
         protocol = Tcp, tcpType = Some Active\<rparr>]\<rparr>)"
proof -
  let ?c4 = "\<lparr>ip = ''192.168.1.5'', port = 54321, type = Host, protocol = Udp, tcpType = None\<rparr>"
  let ?c6 = "\<lparr>ip = ''2001:db8::ff00:42:8329'', port = 443, type = Srflx, protocol = Tcp,
              tcpType = Some So\<rparr>"
  let ?cm = "\<lparr>ip = ''b124d656-dba0-4a1c-8f3b-1a2b3c4d5e6f.local'', port = 9, type = Host,
              protocol = Tcp, tcpType = Some Active\<rparr>"
  have l: "length TEST_FINGERPRINT = 32" by (simp add: TEST_FINGERPRINT_def)
  have a4: "canonical_address ''192.168.1.5''" by (simp add: parse_eval format_eval)
  have a6: "canonical_address ''2001:db8::ff00:42:8329''" by (simp add: parse_eval format_eval)
  have am: "canonical_address ''b124d656-dba0-4a1c-8f3b-1a2b3c4d5e6f.local''"
    by (simp add: parse_eval format_eval)
  have w: "\<forall>c \<in> set [?c4, ?c6, ?cm]. wire_candidate c"
    using a4 a6 am by (simp add: wire_candidate_def)
  have ne: "[?c4, ?c6, ?cm] \<noteq> []" by simp
  have w3: "wire_candidate ?c4" "wire_candidate ?c6" "wire_candidate ?cm" using w by simp_all
  from decode_encode_roundtrip [OF l ne w] l w3 show ?thesis by blast
qed

text \<open>
  The claim as stated fails on an address that is not written the way the decoder
  writes it: the packet carries the 16 address bytes, not the text, and the decoder writes
  them in its own compressed lower-case form.
\<close>

theorem decode_encode_counterexample:
  "encode TEST_FINGERPRINT
     [\<lparr>ip = ''2001:0db8:0:0:0:0:0:1'', port = 54321, type = Host, protocol = Udp,
       tcpType = None\<rparr>] =
     Inr ([0x51, 0x00] @ TEST_FINGERPRINT @
          [0x01, 0x20, 0x01, 0x0d, 0xb8, 0, 0, 0, 0, 0, 0, 0, 0, 0, 0, 0, 0x01, 0xD4, 0x31]) \<and>
   decode ([0x51, 0x00] @ TEST_FINGERPRINT @
          [0x01, 0x20, 0x01, 0x0d, 0xb8, 0, 0, 0, 0, 0, 0, 0, 0, 0, 0, 0, 0x01, 0xD4, 0x31]) =
     Inr \<lparr>version = 0, fingerprint = TEST_FINGERPRINT, candidates =
       [\<lparr>ip = ''2001:db8::1'', port = 54321, type = Host, protocol = Udp, tcpType = None\<rparr>]\<rparr> \<and>
   decode ([0x51, 0x00] @ TEST_FINGERPRINT @
          [0x01, 0x20, 0x01, 0x0d, 0xb8, 0, 0, 0, 0, 0, 0, 0, 0, 0, 0, 0, 0x01, 0xD4, 0x31]) \<noteq>
     Inr \<lparr>version = 0, fingerprint = TEST_FINGERPRINT, candidates =
       [\<lparr>ip = ''2001:0db8:0:0:0:0:0:1'', port = 54321, type = Host, protocol = Udp,
         tcpType = None\<rparr>]\<rparr>"
proof -
  have e: "encode TEST_FINGERPRINT
     [\<lparr>ip = ''2001:0db8:0:0:0:0:0:1'', port = 54321, type = Host, protocol = Udp,
       tcpType = None\<rparr>] =
     Inr ([0x51, 0x00] @ TEST_FINGERPRINT @
          [0x01, 0x20, 0x01, 0x0d, 0xb8, 0, 0, 0, 0, 0, 0, 0, 0, 0, 0, 0, 0x01, 0xD4, 0x31])"
    by (simp add: TEST_FINGERPRINT_def encode_eval parse_eval)
  have d: "decode ([0x51, 0x00] @ TEST_FINGERPRINT @
          [0x01, 0x20, 0x01, 0x0d, 0xb8, 0, 0, 0, 0, 0, 0, 0, 0, 0, 0, 0, 0x01, 0xD4, 0x31]) =
     Inr \<lparr>version = 0, fingerprint = TEST_FINGERPRINT, candidates =
       [\<lparr>ip = ''2001:db8::1'', port = 54321, type = Host, protocol = Udp, tcpType = None\<rparr>]\<rparr>"
    by (simp add: TEST_FINGERPRINT_def decode_eval format_eval)
  show ?thesis unfolding d using e by simp
qed

text \<open>
  It fails on the empty list of candidates as well: \<open>encode\<close> accepts it and returns the 34
  bytes of header and fingerprint, which \<open>decode\<close> rejects as shorter than a packet.
\<close>

lemma decode_encode_empty:
  "encode TEST_FINGERPRINT [] = Inr ([0x51, 0x00] @ TEST_FINGERPRINT) \<and>
   decode ([0x51, 0x00] @ TEST_FINGERPRINT) = Inl (QWBPDecodeError PacketTooShort)"
proof -
  have "length TEST_FINGERPRINT = 32" by (simp add: TEST_FINGERPRINT_def)
  then show ?thesis
    using encode_eq [of TEST_FINGERPRINT "[]"] by (simp add: decode_def constants_defs)
qed

end
